theory Spec2Isabelle
  imports Main
begin

section \<open>The maze file format of \<open>sim/MazeFileUtilities.cpp\<close>\<close>

text \<open>
  The development embeds the three functions of \<open>MazeFileUtilities\<close>:
  \<open>isMazeFile\<close> (the validator), \<open>saveMaze\<close> and \<open>loadMaze\<close> (the codec).
  The counters \<open>lineNum\<close>, \<open>expectedX\<close>, \<open>expectedY\<close>, \<open>x\<close> and \<open>y\<close> are C++ \<open>int\<close>s
  that only ever grow by one per line read or cell written; signed overflow is undefined
  in C++ and would need a file of more than \<open>2^31 - 1\<close> lines, so they are modelled as
  \<open>int\<close> and the model describes the runs below that size. Container sizes
  (\<open>size_t\<close>) are \<open>nat\<close>. The integers read from a file are \<open>int\<close>s in the source as
  well; the model takes the value of the decimal token, which is the \<open>int\<close> of the
  source for a token within the range of an \<open>int\<close> (\<open>fitsInt\<close> below).
\<close>

subsection \<open>Files and streams\<close>

text \<open>
  A file has its bytes and two permissions. The file system maps a path to the regular
  file stored there, and says for a free path whether a file may be created at it.
\<close>

record regular_file =
  readable :: bool
  writable :: bool
  contents :: string

record filesystem =
  files :: "string \<rightharpoonup> regular_file"
  creatable :: "string \<Rightarrow> bool"

text \<open>
  Modelled from the spec: \<open>SimUtilities::isFile\<close> is declared outside the sources at
  hand; the spec's first precondition is that the "path must reference an existing
  file".
\<close>

definition isFile :: "filesystem \<Rightarrow> string \<Rightarrow> bool" where
  "isFile fs path = (files fs path \<noteq> None)"

text \<open>\<open>std::ifstream file(path)\<close> followed by \<open>file.is_open()\<close>: the bytes, when the stream opens.\<close>

definition ifstream_open :: "filesystem \<Rightarrow> string \<Rightarrow> string option" where
  "ifstream_open fs path =
     (case files fs path of
        None \<Rightarrow> None
      | Some f \<Rightarrow> if readable f then Some (contents f) else None)"

text \<open>
  \<open>std::ofstream file(path)\<close>: opening truncates an existing writable file and creates a
  missing one where the file system allows it.
\<close>

definition ofstream_open :: "filesystem \<Rightarrow> string \<Rightarrow> regular_file option" where
  "ofstream_open fs path =
     (case files fs path of
        None \<Rightarrow> if creatable fs path
                 then Some \<lparr>readable = True, writable = True, contents = []\<rparr>
                 else None
      | Some f \<Rightarrow> if writable f then Some (f\<lparr>contents := []\<rparr>) else None)"

text \<open>
  The loop \<open>while (std::getline(file, line))\<close>: a line ends at a newline character or at
  the end of the file, and \<open>getline\<close> fails once no character is left. The first argument
  is the line read so far.
\<close>

definition newline :: char where
  "newline = CHR 0x0A"

fun getline_loop :: "string \<Rightarrow> string \<Rightarrow> string list" where
  "getline_loop line [] = (if line = [] then [] else [line])"
| "getline_loop line (c # cs) =
     (if c = newline then line # getline_loop [] cs
      else getline_loop (line @ [c]) cs)"

definition getlines :: "string \<Rightarrow> string list" where
  "getlines bytes = getline_loop [] bytes"

subsection \<open>The helpers of \<open>SimUtilities\<close>\<close>

text \<open>
  Modelled from the spec: \<open>SimUtilities::tokenize\<close> is declared outside the sources at
  hand; the spec has a line "split on whitespace" into its tokens. Whitespace is what
  \<open>isspace\<close> accepts in the C locale.
\<close>

definition isspace :: "char \<Rightarrow> bool" where
  "isspace c = (c = CHR '' '' \<or> c = CHR 0x09 \<or> c = CHR 0x0A \<or> c = CHR 0x0B
                \<or> c = CHR 0x0C \<or> c = CHR 0x0D)"

fun tokenize_loop :: "string \<Rightarrow> string \<Rightarrow> string list" where
  "tokenize_loop word [] = (if word = [] then [] else [word])"
| "tokenize_loop word (c # cs) =
     (if isspace c
      then (if word = [] then tokenize_loop [] cs else word # tokenize_loop [] cs)
      else tokenize_loop (word @ [c]) cs)"

definition tokenize :: "string \<Rightarrow> string list" where
  "tokenize str = tokenize_loop [] str"

text \<open>
  Modelled from the spec: \<open>SimUtilities::isInt\<close> and \<open>SimUtilities::strToInt\<close> are
  declared outside the sources at hand; the spec has a token "parse as an integer
  (optional leading sign, base 10)". \<open>strToInt\<close> is only ever applied to a token that
  \<open>isInt\<close> accepts.
\<close>

definition isdigit :: "char \<Rightarrow> bool" where
  "isdigit c = (48 \<le> (of_char c :: nat) \<and> (of_char c :: nat) \<le> 57)"

definition isInt :: "string \<Rightarrow> bool" where
  "isInt str =
     (case str of
        [] \<Rightarrow> False
      | c # cs \<Rightarrow>
          if c = CHR ''-'' \<or> c = CHR ''+'' then cs \<noteq> [] \<and> list_all isdigit cs
          else list_all isdigit (c # cs))"

definition digitsToInt :: "string \<Rightarrow> int" where
  "digitsToInt ds = foldl (\<lambda>n c. 10 * n + (of_char c - 48)) 0 ds"

definition strToInt :: "string \<Rightarrow> int" where
  "strToInt str =
     (case str of
        [] \<Rightarrow> 0
      | c # cs \<Rightarrow>
          if c = CHR ''-'' then - digitsToInt cs
          else if c = CHR ''+'' then digitsToInt cs
          else digitsToInt (c # cs))"

text \<open>
  \<open>file << x\<close> for an \<open>int\<close>: the decimal digits, most significant first, after a minus
  sign for a negative number.
\<close>

fun natToString :: "nat \<Rightarrow> string" where
  "natToString n =
     (if n < 10 then [''0123456789'' ! n]
      else natToString (n div 10) @ [''0123456789'' ! (n mod 10)])"

declare natToString.simps [simp del]

definition intToString :: "int \<Rightarrow> string" where
  "intToString i = (if i < 0 then CHR ''-'' # natToString (nat (- i)) else natToString (nat i))"

subsection \<open>Directions and tiles\<close>

text \<open>
  Modelled from the spec: \<open>Direction\<close>, \<open>DIRECTIONS\<close>, \<open>SimUtilities::getDirectionIndex\<close>
  and \<open>BasicTile\<close> are declared outside the sources at hand. The spec fixes the order
  of the four wall tokens as north, east, south, west; a cell carries one flag per
  direction. The source keeps the flags in a \<open>std::map\<close> from directions to booleans
  (it fills it with \<open>insert\<close> and reads it with \<open>at\<close>), so a tile is a partial map.
\<close>

datatype Direction = NORTH | EAST | SOUTH | WEST

definition DIRECTIONS :: "Direction list" where
  "DIRECTIONS = [NORTH, EAST, SOUTH, WEST]"

fun getDirectionIndex :: "Direction \<Rightarrow> nat" where
  "getDirectionIndex NORTH = 0"
| "getDirectionIndex EAST = 1"
| "getDirectionIndex SOUTH = 2"
| "getDirectionIndex WEST = 3"

record BasicTile =
  walls :: "Direction \<rightharpoonup> bool"

type_synonym maze = "BasicTile list list"

subsection \<open>Warnings and failures\<close>

text \<open>
  One constructor for each \<open>L()->warn\<close> call, with the arguments of its message in the
  order of the call.
\<close>

datatype warning =
    NotAFile string
  | CouldNotOpen string
  | EmptyFile string
  | WrongEntryCount string int nat
  | NonNumericEntry string string int int
  | UnexpectedXY string int int int
  | InvalidWallValue string int int int
  | UnableToSave string

text \<open>
  What ends a call early: \<open>std::vector::at\<close> and \<open>std::map::at\<close> throw
  \<open>std::out_of_range\<close>, and \<open>ASSERT_TR\<close> stops the program when its argument is false.
\<close>

datatype failure = OutOfRange | AssertionFailed

fun at :: "'a list \<Rightarrow> nat \<Rightarrow> failure + 'a" where
  "at xs i = (if i < length xs then Inr (xs ! i) else Inl OutOfRange)"

subsection \<open>\<open>isMazeFile\<close>\<close>

text \<open>
  The loop over the tokens of a line (lines 81 to 96): the first token that is not an
  integer ends the validation; \<open>i\<close> is the index of the first token of the list.
\<close>

fun parseValues :: "string \<Rightarrow> int \<Rightarrow> int \<Rightarrow> string list \<Rightarrow> warning + int list" where
  "parseValues path lineNum i [] = Inr []"
| "parseValues path lineNum i (t # ts) =
     (if \<not> isInt t then Inl (NonNumericEntry path t lineNum (i + 1))
      else (case parseValues path lineNum (i + 1) ts of
              Inl w \<Rightarrow> Inl w
            | Inr values \<Rightarrow> Inr (strToInt t # values)))"

text \<open>The loop over the four wall values (lines 120 to 132), from index \<open>i\<close> on.\<close>

fun checkWalls :: "string \<Rightarrow> int \<Rightarrow> int list \<Rightarrow> nat list \<Rightarrow> warning option" where
  "checkWalls path lineNum values [] = None"
| "checkWalls path lineNum values (i # is) =
     (let value = values ! (2 + i)
      in if \<not> (value = 0 \<or> value = 1)
         then Some (InvalidWallValue path value (int (2 + i + 1)) lineNum)
         else checkWalls path lineNum values is)"

text \<open>
  The body of the \<open>while\<close> loop for one line, from the state \<open>(lineNum, expectedX,
  expectedY)\<close>: a warning, or the state for the next line. The expectation is updated
  before the wall values are checked, as in the source. The reads \<open>values.at(0)\<close> to
  \<open>values.at(5)\<close> are in range, since \<open>values\<close> has the six entries of \<open>tokens\<close> there.
\<close>

definition checkLine ::
  "string \<Rightarrow> int \<times> int \<times> int \<Rightarrow> string \<Rightarrow> warning + int \<times> int \<times> int" where
  "checkLine path st line =
     (case st of (lineNum0, expectedX, expectedY) \<Rightarrow>
      let lineNum = lineNum0 + 1;
          tokens = tokenize line
      in if 6 \<noteq> length tokens
         then Inl (WrongEntryCount path lineNum (length tokens))
         else (case parseValues path lineNum 0 tokens of
                 Inl w \<Rightarrow> Inl w
               | Inr values \<Rightarrow>
                   let caseOne = (values ! 0 = expectedX \<and> values ! 1 = expectedY);
                       caseTwo = (values ! 0 = expectedX + 1 \<and> values ! 1 = 0
                                    \<and> expectedY \<noteq> 0)
                   in (case (if caseOne then Inr (expectedX, expectedY + 1)
                             else if caseTwo then Inr (expectedX + 1, 1)
                             else Inl (UnexpectedXY path (values ! 0) (values ! 1) lineNum)) of
                         Inl w \<Rightarrow> Inl w
                       | Inr expected \<Rightarrow>
                           (case checkWalls path lineNum values [0, 1, 2, 3] of
                              Some w \<Rightarrow> Inl w
                            | None \<Rightarrow> Inr (lineNum, expected)))))"

text \<open>
  The \<open>while\<close> loop over the lines that are left: the first warning, or the state in
  which the loop ends.
\<close>

fun scanLines ::
  "string \<Rightarrow> int \<times> int \<times> int \<Rightarrow> string list \<Rightarrow> warning + int \<times> int \<times> int" where
  "scanLines path st [] = Inr st"
| "scanLines path st (line # rest) =
     (case checkLine path st line of
        Inl w \<Rightarrow> Inl w
      | Inr st' \<Rightarrow> scanLines path st' rest)"

text \<open>The result of \<open>isMazeFile\<close> together with the warnings it logs.\<close>

definition isMazeFile_log :: "filesystem \<Rightarrow> string \<Rightarrow> bool \<times> warning list" where
  "isMazeFile_log fs mazeFilePath =
     (if \<not> isFile fs mazeFilePath then (False, [NotAFile mazeFilePath])
      else (case ifstream_open fs mazeFilePath of
              None \<Rightarrow> (False, [CouldNotOpen mazeFilePath])
            | Some bytes \<Rightarrow>
                if bytes = [] then (False, [EmptyFile mazeFilePath])
                else (case scanLines mazeFilePath (0, 0, 0) (getlines bytes) of
                        Inl w \<Rightarrow> (False, [w])
                      | Inr st \<Rightarrow> (True, []))))"

definition isMazeFile :: "filesystem \<Rightarrow> string \<Rightarrow> bool" where
  "isMazeFile fs mazeFilePath = fst (isMazeFile_log fs mazeFilePath)"

subsection \<open>\<open>saveMaze\<close>\<close>

text \<open>The text of the four wall flags of a tile, each after a space (lines 153 to 155).\<close>

fun wallsText :: "BasicTile \<Rightarrow> Direction list \<Rightarrow> failure + string" where
  "wallsText tile [] = Inr []"
| "wallsText tile (direction # ds) =
     (case walls tile direction of
        None \<Rightarrow> Inl OutOfRange
      | Some b \<Rightarrow>
          (case wallsText tile ds of
             Inl e \<Rightarrow> Inl e
           | Inr s \<Rightarrow> Inr (CHR '' '' # (if b then CHR ''1'' else CHR ''0'') # s)))"

text \<open>The inner loop: the lines of the cells of column \<open>x\<close> from row \<open>y\<close> on.\<close>

fun saveColumn :: "int \<Rightarrow> int \<Rightarrow> BasicTile list \<Rightarrow> failure + string" where
  "saveColumn x y [] = Inr []"
| "saveColumn x y (tile # tiles) =
     (case wallsText tile DIRECTIONS of
        Inl e \<Rightarrow> Inl e
      | Inr w \<Rightarrow>
          (case saveColumn x (y + 1) tiles of
             Inl e \<Rightarrow> Inl e
           | Inr s \<Rightarrow> Inr (intToString x @ '' '' @ intToString y @ w @ [newline] @ s)))"

text \<open>The outer loop: the lines of the columns from column \<open>x\<close> on.\<close>

fun saveColumns :: "int \<Rightarrow> maze \<Rightarrow> failure + string" where
  "saveColumns x [] = Inr []"
| "saveColumns x (column # columns) =
     (case saveColumn x 0 column of
        Inl e \<Rightarrow> Inl e
      | Inr s \<Rightarrow>
          (case saveColumns (x + 1) columns of
             Inl e \<Rightarrow> Inl e
           | Inr s' \<Rightarrow> Inr (s @ s')))"

text \<open>
  \<open>saveMaze\<close>: the file system after the call and the warnings logged, or the exception
  that a missing wall flag raises.
\<close>

definition saveMaze ::
  "maze \<Rightarrow> string \<Rightarrow> filesystem \<Rightarrow> failure + filesystem \<times> warning list" where
  "saveMaze maze mazeFilePath fs =
     (case ofstream_open fs mazeFilePath of
        None \<Rightarrow> Inr (fs, [UnableToSave mazeFilePath])
      | Some f \<Rightarrow>
          (case saveColumns 0 maze of
             Inl e \<Rightarrow> Inl e
           | Inr s \<Rightarrow>
               Inr (fs\<lparr>files := (files fs)(mazeFilePath \<mapsto> f\<lparr>contents := s\<rparr>)\<rparr>, [])))"

subsection \<open>\<open>loadMaze\<close>\<close>

text \<open>
  The tile of a line (lines 183 to 187): \<open>insert\<close> keeps the flag of a direction that
  the map already has.
\<close>

fun insertWalls :: "string list \<Rightarrow> BasicTile \<Rightarrow> Direction list \<Rightarrow> failure + BasicTile" where
  "insertWalls tokens tile [] = Inr tile"
| "insertWalls tokens tile (direction # ds) =
     (case at tokens (2 + getDirectionIndex direction) of
        Inl e \<Rightarrow> Inl e
      | Inr t \<Rightarrow>
          insertWalls tokens
            (if direction \<in> dom (walls tile) then tile
             else tile\<lparr>walls := (walls tile)(direction \<mapsto> (1 = strToInt t))\<rparr>)
            ds)"

text \<open>
  The \<open>while\<close> loop (lines 177 to 197). The comparison \<open>maze.size() < x\<close> is between a
  \<open>size_t\<close> and an \<open>int\<close>; the loop runs after the assertion only, where no \<open>x\<close> is
  negative.
\<close>

fun loadLines :: "maze \<Rightarrow> BasicTile list \<Rightarrow> string list \<Rightarrow> failure + maze" where
  "loadLines maze column [] = Inr (maze @ [column])"
| "loadLines maze column (line # rest) =
     (let tokens = tokenize line
      in case insertWalls tokens \<lparr>walls = Map.empty\<rparr> DIRECTIONS of
           Inl e \<Rightarrow> Inl e
         | Inr tile \<Rightarrow>
             (case at tokens 0 of
                Inl e \<Rightarrow> Inl e
              | Inr t \<Rightarrow>
                  if int (length maze) < strToInt t
                  then loadLines (maze @ [column]) [tile] rest
                  else loadLines maze (column @ [tile]) rest))"

definition loadMaze :: "filesystem \<Rightarrow> string \<Rightarrow> failure + maze" where
  "loadMaze fs mazeFilePath =
     (if \<not> isMazeFile fs mazeFilePath then Inl AssertionFailed
      else (case ifstream_open fs mazeFilePath of
              None \<Rightarrow> loadLines [] [] []
            | Some bytes \<Rightarrow> loadLines [] [] (getlines bytes)))"

section \<open>Notions of the format\<close>

text \<open>
  The integers of a line, whether a line has six integer tokens, whether its four wall
  values are 0 or 1, and the coordinate pair it names.
\<close>

definition lineValues :: "string \<Rightarrow> int list" where
  "lineValues line = map strToInt (tokenize line)"

definition sixInts :: "string \<Rightarrow> bool" where
  "sixInts line = (length (tokenize line) = 6 \<and> list_all isInt (tokenize line))"

definition wallsOk :: "string \<Rightarrow> bool" where
  "wallsOk line = list_all (\<lambda>v. v = 0 \<or> v = 1) (drop 2 (lineValues line))"

definition lineXY :: "string \<Rightarrow> int \<times> int" where
  "lineXY line = (lineValues line ! 0, lineValues line ! 1)"

text \<open>
  The coordinate test of lines 100 to 117 on its own: \<open>acceptsXY\<close> is
  \<open>caseOne \<or> caseTwo\<close>, and \<open>nextXY\<close> the expectation after an accepted pair.
\<close>

definition acceptsXY :: "int \<times> int \<Rightarrow> int \<times> int \<Rightarrow> bool" where
  "acceptsXY e xy = (case (e, xy) of ((expectedX, expectedY), (x, y)) \<Rightarrow>
     (x = expectedX \<and> y = expectedY) \<or> (x = expectedX + 1 \<and> y = 0 \<and> expectedY \<noteq> 0))"

definition nextXY :: "int \<times> int \<Rightarrow> int \<times> int \<Rightarrow> int \<times> int" where
  "nextXY e xy = (case (e, xy) of ((expectedX, expectedY), (x, y)) \<Rightarrow>
     if x = expectedX \<and> y = expectedY then (expectedX, expectedY + 1) else (expectedX + 1, 1))"

fun coordsOk :: "int \<times> int \<Rightarrow> (int \<times> int) list \<Rightarrow> bool" where
  "coordsOk e [] = True"
| "coordsOk e (xy # rest) = (acceptsXY e xy \<and> coordsOk (nextXY e xy) rest)"

text \<open>
  The coordinate progression in the spec's words: the pairs \<open>(x,0), \<dots>, (x,k-1)\<close> of a
  column of \<open>k\<close> rows, and the columns \<open>0, 1, 2, \<dots>\<close> with the lengths \<open>ks\<close> one after
  the other.
\<close>

definition columnCoords :: "int \<Rightarrow> nat \<Rightarrow> (int \<times> int) list" where
  "columnCoords x k = map (\<lambda>y. (x, int y)) [0..<k]"

fun progressionFrom :: "int \<Rightarrow> nat list \<Rightarrow> (int \<times> int) list" where
  "progressionFrom x [] = []"
| "progressionFrom x (k # ks) = columnCoords x k @ progressionFrom (x + 1) ks"

definition progression :: "nat list \<Rightarrow> (int \<times> int) list" where
  "progression ks = progressionFrom 0 ks"

definition rowsFrom :: "int \<Rightarrow> int \<Rightarrow> nat \<Rightarrow> (int \<times> int) list" where
  "rowsFrom x y j = map (\<lambda>i. (x, y + int i)) [0..<j]"

text \<open>
  For the codec: the tile that \<open>loadMaze\<close> builds from a line of six tokens, the length
  of column \<open>i\<close> of a maze (0 when there is no such column), and the lines of a file that
  carry the x-value \<open>i\<close>.
\<close>

definition lineTile :: "string \<Rightarrow> BasicTile" where
  "lineTile line =
     \<lparr>walls = [NORTH \<mapsto> (1 = lineValues line ! 2), EAST \<mapsto> (1 = lineValues line ! 3),
               SOUTH \<mapsto> (1 = lineValues line ! 4), WEST \<mapsto> (1 = lineValues line ! 5)]\<rparr>"

definition colLen :: "maze \<Rightarrow> nat \<Rightarrow> nat" where
  "colLen g i = (if i < length g then length (g ! i) else 0)"

definition linesOfColumn :: "nat \<Rightarrow> string list \<Rightarrow> string list" where
  "linesOfColumn i ls = filter (\<lambda>line. fst (lineXY line) = int i) ls"

text \<open>
  A tile with a flag for each of the four directions, and a maze with at least one
  column whose columns all have at least one tile and whose tiles all have four flags.
\<close>

definition hasAllWalls :: "BasicTile \<Rightarrow> bool" where
  "hasAllWalls tile = (\<forall>d \<in> set DIRECTIONS. walls tile d \<noteq> None)"

definition wellShaped :: "maze \<Rightarrow> bool" where
  "wellShaped maze =
     (maze \<noteq> [] \<and> (\<forall>column \<in> set maze. column \<noteq> [] \<and> (\<forall>tile \<in> set column. hasAllWalls tile)))"

text \<open>
  The file that \<open>saveMaze\<close> writes for such a maze, line by line: the character of a
  wall flag, the line of the cell at \<open>(x, y)\<close>, the lines of column \<open>x\<close> from row \<open>y\<close>
  on, and the lines of the columns from \<open>x\<close> on; \<open>unlines\<close> ends each line with a
  newline character.
\<close>

definition wallChar :: "BasicTile \<Rightarrow> Direction \<Rightarrow> char" where
  "wallChar tile d = (if walls tile d = Some True then CHR ''1'' else CHR ''0'')"

definition cellLine :: "int \<Rightarrow> int \<Rightarrow> BasicTile \<Rightarrow> string" where
  "cellLine x y tile =
     intToString x @ CHR '' '' # intToString y @
       [CHR '' '', wallChar tile NORTH, CHR '' '', wallChar tile EAST,
        CHR '' '', wallChar tile SOUTH, CHR '' '', wallChar tile WEST]"

fun columnLines :: "int \<Rightarrow> int \<Rightarrow> BasicTile list \<Rightarrow> string list" where
  "columnLines x y [] = []"
| "columnLines x y (tile # tiles) = cellLine x y tile # columnLines x (y + 1) tiles"

fun mazeLines :: "int \<Rightarrow> maze \<Rightarrow> string list" where
  "mazeLines x [] = []"
| "mazeLines x (column # columns) = columnLines x 0 column @ mazeLines (x + 1) columns"

definition unlines :: "string list \<Rightarrow> string" where
  "unlines ls = concat (map (\<lambda>l. l @ [newline]) ls)"

text \<open>
  A maze whose cells come first: column 0 has a cell, and no column with cells comes
  after a column without cells.
\<close>

definition cellsFirst :: "maze \<Rightarrow> bool" where
  "cellsFirst maze =
     (takeWhile (\<lambda>column. column \<noteq> []) maze \<noteq> [] \<and>
      list_all (\<lambda>column. column = []) (dropWhile (\<lambda>column. column \<noteq> []) maze))"


text \<open>A file system with one readable and writable file, for the examples.\<close>

definition oneFile :: "string \<Rightarrow> string \<Rightarrow> filesystem" where
  "oneFile path bytes =
     \<lparr>files = [path \<mapsto> \<lparr>readable = True, writable = True, contents = bytes\<rparr>],
      creatable = (\<lambda>p. False)\<rparr>"

section \<open>The validator, line by line\<close>

lemma parseValues_ints:
  "list_all isInt ts \<Longrightarrow> parseValues p n i ts = Inr (map strToInt ts)"
  by (induction ts arbitrary: i) simp_all

lemma parseValues_bad:
  "\<not> list_all isInt ts \<Longrightarrow> \<exists>t j. parseValues p n i ts = Inl (NonNumericEntry p t n j)"
proof (induction ts arbitrary: i)
  case Nil
  then show ?case by simp
next
  case (Cons t ts)
  show ?case
  proof (cases "isInt t")
    case True
    with Cons.prems have "\<not> list_all isInt ts" by simp
    from Cons.IH [OF this, of "i + 1"] True show ?thesis by auto
  next
    case False
    then show ?thesis by simp
  qed
qed

lemma checkWalls_ok:
  "\<forall>i \<in> set js. vs ! (2 + i) = 0 \<or> vs ! (2 + i) = 1 \<Longrightarrow> checkWalls p n vs js = None"
  by (induction js) (simp_all add: Let_def)

lemma checkWalls_bad:
  "\<exists>i \<in> set js. \<not> (vs ! (2 + i) = 0 \<or> vs ! (2 + i) = 1) \<Longrightarrow>
   \<exists>i \<in> set js. \<not> (vs ! (2 + i) = 0 \<or> vs ! (2 + i) = 1) \<and>
      checkWalls p n vs js = Some (InvalidWallValue p (vs ! (2 + i)) (int (2 + i + 1)) n)"
proof (induction js)
  case Nil
  then show ?case by simp
next
  case (Cons j js)
  show ?case
  proof (cases "vs ! (2 + j) = 0 \<or> vs ! (2 + j) = 1")
    case True
    with Cons.prems have "\<exists>i \<in> set js. \<not> (vs ! (2 + i) = 0 \<or> vs ! (2 + i) = 1)" by auto
    from Cons.IH [OF this] True show ?thesis by (auto simp: Let_def)
  next
    case False
    then show ?thesis by (auto simp: Let_def)
  qed
qed

lemma wallsOk_nth:
  assumes "length (tokenize l) = 6"
  shows "wallsOk l \<longleftrightarrow> (\<forall>i \<in> set [0, 1, 2, 3::nat]. lineValues l ! (2 + i) = 0 \<or> lineValues l ! (2 + i) = 1)"
proof -
  have len: "length (lineValues l) = 6" using assms by (simp add: lineValues_def)
  then obtain a b c d e f where vs: "lineValues l = [a, b, c, d, e, f]"
    by (auto simp: length_Suc_conv eval_nat_numeral)
  show ?thesis by (simp add: wallsOk_def vs)
qed

lemma checkLine_sixInts:
  assumes "sixInts l"
  shows "checkLine p (n, e) l =
     (if \<not> acceptsXY e (lineXY l)
      then Inl (UnexpectedXY p (fst (lineXY l)) (snd (lineXY l)) (n + 1))
      else (case checkWalls p (n + 1) (lineValues l) [0, 1, 2, 3] of
              Some w \<Rightarrow> Inl w
            | None \<Rightarrow> Inr (n + 1, nextXY e (lineXY l))))"
proof -
  obtain ex ey where e: "e = (ex, ey)" by (cases e)
  from assms have len: "length (tokenize l) = 6" and ints: "list_all isInt (tokenize l)"
    by (simp_all add: sixInts_def)
  have pv: "parseValues p (n + 1) 0 (tokenize l) = Inr (lineValues l)"
    using parseValues_ints [OF ints] by (simp add: lineValues_def)
  show ?thesis
    unfolding checkLine_def e
    by (auto simp: len pv Let_def acceptsXY_def nextXY_def lineXY_def split: option.splits)
qed

lemma checkLine_accept:
  assumes "sixInts l" "wallsOk l"
  shows "checkLine p (n, e) l =
     (if \<not> acceptsXY e (lineXY l)
      then Inl (UnexpectedXY p (fst (lineXY l)) (snd (lineXY l)) (n + 1))
      else Inr (n + 1, nextXY e (lineXY l)))"
proof -
  from assms have len: "length (tokenize l) = 6" by (simp add: sixInts_def)
  have "checkWalls p (n + 1) (lineValues l) [0, 1, 2, 3] = None"
    by (rule checkWalls_ok) (use assms(2) wallsOk_nth [OF len] in simp)
  then show ?thesis by (simp add: checkLine_sixInts [OF assms(1)])
qed

lemma checkLine_count:
  "length (tokenize l) \<noteq> 6 \<Longrightarrow>
   checkLine p (n, e) l = Inl (WrongEntryCount p (n + 1) (length (tokenize l)))"
  by (cases e) (simp add: checkLine_def Let_def)

section \<open>The coordinate progression\<close>

lemma rowsFrom_0 [simp]: "rowsFrom x y 0 = []"
  by (simp add: rowsFrom_def)

lemma rowsFrom_Suc: "rowsFrom x y (Suc j) = (x, y) # rowsFrom x (y + 1) j"
proof -
  have "[0..<Suc j] = 0 # map Suc [0..<j]"
    by (simp add: upt_conv_Cons map_Suc_upt del: upt_Suc)
  then show ?thesis
    by (simp add: rowsFrom_def comp_def add.assoc del: upt_Suc)
qed

lemma columnCoords_rowsFrom: "columnCoords x k = rowsFrom x 0 k"
  by (simp add: columnCoords_def rowsFrom_def)

lemma scanLines_coordsOk:
  "\<forall>l \<in> set ls. sixInts l \<and> wallsOk l \<Longrightarrow>
   (\<exists>st. scanLines p (n, e) ls = Inr st) \<longleftrightarrow> coordsOk e (map lineXY ls)"
proof (induction ls arbitrary: n e)
  case Nil
  then show ?case by simp
next
  case (Cons l ls)
  then have l: "sixInts l" "wallsOk l" and rest: "\<forall>l \<in> set ls. sixInts l \<and> wallsOk l"
    by simp_all
  show ?case
    using Cons.IH [OF rest, of "n + 1" "nextXY e (lineXY l)"]
    by (simp add: checkLine_accept [OF l])
qed

lemma coordsOk_rows:
  "(\<forall>k \<in> set ks. 0 < k) \<Longrightarrow> 0 < ey \<Longrightarrow>
   coordsOk (ex, ey) (rowsFrom ex ey j @ progressionFrom (ex + 1) ks)"
proof (induction ks arbitrary: ex ey j)
  case Nil
  from Nil.prems(2) show ?case
    by (induction j arbitrary: ey) (simp_all add: rowsFrom_Suc acceptsXY_def nextXY_def)
next
  case (Cons k ks)
  then obtain k' where k: "k = Suc k'" by (cases k) auto
  from Cons.prems have pos: "\<forall>k \<in> set ks. 0 < k" by simp
  have start: "coordsOk (ex, ey) (progressionFrom (ex + 1) (k # ks))" if "0 < ey" for ey
    using Cons.IH [OF pos, of 1 "ex + 1" k'] that
    by (simp add: k columnCoords_rowsFrom rowsFrom_Suc acceptsXY_def nextXY_def)
  from Cons.prems(2) show ?case
  proof (induction j arbitrary: ey)
    case 0
    then show ?case using start by simp
  next
    case (Suc j)
    from Suc.IH [of "ey + 1"] Suc.prems show ?case
      by (simp add: rowsFrom_Suc acceptsXY_def nextXY_def)
  qed
qed

lemma coordsOk_shape:
  "coordsOk (ex, ey) xys \<Longrightarrow> 0 < ey \<Longrightarrow>
   \<exists>j ks. (\<forall>k \<in> set ks. 0 < k) \<and> xys = rowsFrom ex ey j @ progressionFrom (ex + 1) ks"
proof (induction xys arbitrary: ex ey)
  case Nil
  have "[] = rowsFrom ex ey 0 @ progressionFrom (ex + 1) []" by simp
  then show ?case by (metis empty_iff list.set(1))
next
  case (Cons xy xys)
  obtain x y where xy: "xy = (x, y)" by (cases xy)
  from Cons.prems have acc: "acceptsXY (ex, ey) (x, y)"
    and rest: "coordsOk (nextXY (ex, ey) (x, y)) xys" by (simp_all add: xy)
  show ?case
  proof (cases "x = ex \<and> y = ey")
    case True
    with rest have "coordsOk (ex, ey + 1) xys" by (simp add: nextXY_def)
    from Cons.IH [OF this] Cons.prems(2) obtain j ks where
      ks: "\<forall>k \<in> set ks. 0 < k" and xys: "xys = rowsFrom ex (ey + 1) j @ progressionFrom (ex + 1) ks"
      by auto
    have "xy # xys = rowsFrom ex ey (Suc j) @ progressionFrom (ex + 1) ks"
      using True by (simp add: xy xys rowsFrom_Suc)
    with ks show ?thesis by blast
  next
    case False
    with acc have new: "x = ex + 1" "y = 0" by (auto simp: acceptsXY_def)
    from rest False have "coordsOk (ex + 1, 1) xys" by (simp add: nextXY_def)
    from Cons.IH [OF this] obtain j ks where
      ks: "\<forall>k \<in> set ks. 0 < k" and xys: "xys = rowsFrom (ex + 1) 1 j @ progressionFrom (ex + 1 + 1) ks"
      by auto
    have "xy # xys = rowsFrom ex ey 0 @ progressionFrom (ex + 1) (Suc j # ks)"
      by (simp add: xy xys new columnCoords_rowsFrom rowsFrom_Suc)
    moreover have "\<forall>k \<in> set (Suc j # ks). 0 < k" using ks by simp
    ultimately show ?thesis by blast
  qed
qed

lemma coordsOk_start:
  "xys \<noteq> [] \<Longrightarrow>
   coordsOk (0, 0) xys \<longleftrightarrow>
   (\<exists>ks. ks \<noteq> [] \<and> (\<forall>k \<in> set ks. 0 < k) \<and> xys = progression ks)"
proof
  assume ne: "xys \<noteq> []" and ok: "coordsOk (0, 0) xys"
  then obtain xy rest where xys: "xys = xy # rest" by (cases xys) auto
  from ok have xy: "xy = (0, 0)" and rest: "coordsOk (0, 1) rest"
    by (auto simp: xys acceptsXY_def nextXY_def split: prod.splits)
  from coordsOk_shape [OF rest] obtain j ks where
    ks: "\<forall>k \<in> set ks. 0 < k" and r: "rest = rowsFrom 0 1 j @ progressionFrom (0 + 1) ks"
    by auto
  have "xys = progression (Suc j # ks)"
    by (simp add: xys xy r progression_def columnCoords_rowsFrom rowsFrom_Suc)
  moreover have "Suc j # ks \<noteq> []" "\<forall>k \<in> set (Suc j # ks). 0 < k" using ks by simp_all
  ultimately show "\<exists>ks. ks \<noteq> [] \<and> (\<forall>k \<in> set ks. 0 < k) \<and> xys = progression ks" by blast
next
  assume "\<exists>ks. ks \<noteq> [] \<and> (\<forall>k \<in> set ks. 0 < k) \<and> xys = progression ks"
  then obtain k ks where pos: "\<forall>k \<in> set (k # ks). 0 < k" and xys: "xys = progression (k # ks)"
    by (metis list.exhaust)
  then obtain k' where k: "k = Suc k'" by (cases k) auto
  from pos have pos': "\<forall>k \<in> set ks. 0 < k" by simp
  have "coordsOk (0, 1) (rowsFrom 0 1 k' @ progressionFrom (0 + 1) ks)"
    by (rule coordsOk_rows [OF pos']) simp
  then show "coordsOk (0, 0) xys"
    by (simp add: xys k progression_def columnCoords_rowsFrom rowsFrom_Suc acceptsXY_def nextXY_def)
qed

lemma getline_loop_Nil: "getline_loop line bytes = [] \<longleftrightarrow> line = [] \<and> bytes = []"
  by (induction bytes arbitrary: line) simp_all

lemma getlines_Nil: "getlines bytes = [] \<longleftrightarrow> bytes = []"
  by (simp add: getlines_def getline_loop_Nil)

lemma isMazeFile_log_open:
  "ifstream_open fs path = Some bytes \<Longrightarrow>
   isMazeFile_log fs path =
     (if bytes = [] then (False, [EmptyFile path])
      else (case scanLines path (0, 0, 0) (getlines bytes) of
              Inl w \<Rightarrow> (False, [w])
            | Inr st \<Rightarrow> (True, [])))"
  by (auto simp: isMazeFile_log_def isFile_def ifstream_open_def split: option.splits if_splits)

lemma progression_Nil: "ks \<noteq> [] \<Longrightarrow> \<forall>k \<in> set ks. 0 < k \<Longrightarrow> progression ks \<noteq> []"
  by (cases ks) (auto simp: progression_def columnCoords_def)

text \<open>
  Claim C1. For a file that opens and whose every line has six integer tokens with wall
  values 0 or 1, \<open>isMazeFile\<close> returns true exactly when the coordinate pairs of the
  lines, from the top, are the progression \<open>(0,0), \<dots>, (0,k0-1), (1,0), \<dots>\<close> for
  some positive column lengths \<open>k0, k1, \<dots>\<close> (at least one column).
\<close>

theorem isMazeFile_iff_progression:
  assumes "ifstream_open fs path = Some bytes"
    and "\<forall>line \<in> set (getlines bytes). sixInts line \<and> wallsOk line"
  shows "isMazeFile fs path \<longleftrightarrow>
    (\<exists>ks. ks \<noteq> [] \<and> (\<forall>k \<in> set ks. 0 < k) \<and> map lineXY (getlines bytes) = progression ks)"
proof (cases "bytes = []")
  case True
  then have "\<not> isMazeFile fs path"
    by (simp add: isMazeFile_def isMazeFile_log_open [OF assms(1)])
  moreover have "map lineXY (getlines bytes) = []" using True by (simp add: getlines_Nil)
  ultimately show ?thesis using progression_Nil by metis
next
  case False
  then have ne: "map lineXY (getlines bytes) \<noteq> []" by (simp add: getlines_Nil)
  have "isMazeFile fs path \<longleftrightarrow> (\<exists>st. scanLines path (0, 0, 0) (getlines bytes) = Inr st)"
    using False by (auto simp: isMazeFile_def isMazeFile_log_open [OF assms(1)] split: sum.splits)
  also have "\<dots> \<longleftrightarrow> coordsOk (0, 0) (map lineXY (getlines bytes))"
    by (rule scanLines_coordsOk [OF assms(2)])
  also have "\<dots> \<longleftrightarrow>
      (\<exists>ks. ks \<noteq> [] \<and> (\<forall>k \<in> set ks. 0 < k) \<and> map lineXY (getlines bytes) = progression ks)"
    by (rule coordsOk_start [OF ne])
  finally show ?thesis .
qed

theorem isMazeFile_iff_progression_witness:
  "isMazeFile (oneFile ''maze'' ''0 0 1 1 0 0\<newline>0 1 0 1 1 0\<newline>1 0 1 0 0 1\<newline>'') ''maze'' \<and>
   map lineXY (getlines ''0 0 1 1 0 0\<newline>0 1 0 1 1 0\<newline>1 0 1 0 0 1\<newline>'') = progression [2, 1]"
proof -
  have ls: "getlines ''0 0 1 1 0 0\<newline>0 1 0 1 1 0\<newline>1 0 1 0 0 1\<newline>''
      = [''0 0 1 1 0 0'', ''0 1 0 1 1 0'', ''1 0 1 0 0 1'']"
    by (simp add: getlines_def newline_def)
  have o: "ifstream_open (oneFile ''maze'' ''0 0 1 1 0 0\<newline>0 1 0 1 1 0\<newline>1 0 1 0 0 1\<newline>'') ''maze''
      = Some ''0 0 1 1 0 0\<newline>0 1 0 1 1 0\<newline>1 0 1 0 0 1\<newline>''"
    by (simp add: oneFile_def ifstream_open_def)
  have w: "\<forall>line \<in> set (getlines ''0 0 1 1 0 0\<newline>0 1 0 1 1 0\<newline>1 0 1 0 0 1\<newline>'').
      sixInts line \<and> wallsOk line"
    by (simp add: ls sixInts_def wallsOk_def lineValues_def tokenize_def isspace_def isInt_def
        isdigit_def strToInt_def digitsToInt_def)
  have p: "map lineXY (getlines ''0 0 1 1 0 0\<newline>0 1 0 1 1 0\<newline>1 0 1 0 0 1\<newline>'')
      = progression [2, 1]"
    by (simp add: ls lineXY_def lineValues_def tokenize_def isspace_def strToInt_def
        digitsToInt_def progression_def columnCoords_def upt_conv_Cons)
  have "[2, 1] \<noteq> [] \<and> (\<forall>k \<in> set [2, 1::nat]. 0 < k)" by simp
  with p isMazeFile_iff_progression [OF o w] show ?thesis by blast
qed

section \<open>Single files\<close>

lemma ifstream_open_oneFile [simp]: "ifstream_open (oneFile path bytes) path = Some bytes"
  by (simp add: oneFile_def ifstream_open_def)

lemma isMazeFile_log_lines:
  assumes "ifstream_open fs path = Some bytes" and "getlines bytes = ls" and "ls \<noteq> []"
  shows "isMazeFile_log fs path =
     (case scanLines path (0, 0, 0) ls of Inl w \<Rightarrow> (False, [w]) | Inr st \<Rightarrow> (True, []))"
proof -
  from assms(2,3) have "bytes \<noteq> []" using getlines_Nil by auto
  then show ?thesis by (simp add: isMazeFile_log_open [OF assms(1)] assms(2))
qed

lemma scanLines_append:
  "scanLines p st (pre @ rest) =
     (case scanLines p st pre of Inl w \<Rightarrow> Inl w | Inr st' \<Rightarrow> scanLines p st' rest)"
  by (induction pre arbitrary: st) (simp_all split: sum.splits)

lemma checkLine_lineNum: "checkLine p (n, e) l = Inr (n', e') \<Longrightarrow> n' = n + 1"
  by (cases e) (auto simp: checkLine_def Let_def split: if_splits sum.splits option.splits)

lemma scanLines_lineNum:
  "scanLines p (n, e) ls = Inr (n', e') \<Longrightarrow> n' = n + int (length ls)"
proof (induction ls arbitrary: n e)
  case Nil
  then show ?case by simp
next
  case (Cons l ls)
  then obtain n1 e1 where step: "checkLine p (n, e) l = Inr (n1, e1)"
    and rest: "scanLines p (n1, e1) ls = Inr (n', e')"
    by (auto split: sum.splits)
  from checkLine_lineNum [OF step] Cons.IH [OF rest] show ?case by simp
qed

text \<open>
  Claim C5. The three-line file with the pairs \<open>(0,0), (1,0), (1,1)\<close> and all wall
  tokens 0 is accepted: a column of one row may be followed at once by the next column.
  The two-line file with the pairs \<open>(0,0), (2,0)\<close> is rejected with the warning for
  unexpected x and y values 2 and 0 on line 2.
\<close>

theorem isMazeFile_column_skip:
  assumes "ifstream_open fs path = Some bytes"
  shows "(getlines bytes = [''0 0 0 0 0 0'', ''1 0 0 0 0 0'', ''1 1 0 0 0 0''] \<longrightarrow>
            isMazeFile_log fs path = (True, [])) \<and>
         (getlines bytes = [''0 0 0 0 0 0'', ''2 0 0 0 0 0''] \<longrightarrow>
            isMazeFile_log fs path = (False, [UnexpectedXY path 2 0 2]))"
proof (intro conjI impI)
  assume ls: "getlines bytes = [''0 0 0 0 0 0'', ''1 0 0 0 0 0'', ''1 1 0 0 0 0'']"
  have "scanLines path (0, 0, 0) [''0 0 0 0 0 0'', ''1 0 0 0 0 0'', ''1 1 0 0 0 0''] = Inr (3, 1, 2)"
    by (simp add: checkLine_def tokenize_def isspace_def isInt_def isdigit_def strToInt_def digitsToInt_def)
  then show "isMazeFile_log fs path = (True, [])"
    by (simp add: isMazeFile_log_lines [OF assms ls])
next
  assume ls: "getlines bytes = [''0 0 0 0 0 0'', ''2 0 0 0 0 0'']"
  have "scanLines path (0, 0, 0) [''0 0 0 0 0 0'', ''2 0 0 0 0 0''] = Inl (UnexpectedXY path 2 0 2)"
    by (simp add: checkLine_def tokenize_def isspace_def isInt_def isdigit_def strToInt_def digitsToInt_def)
  then show "isMazeFile_log fs path = (False, [UnexpectedXY path 2 0 2])"
    by (simp add: isMazeFile_log_lines [OF assms ls])
qed

theorem isMazeFile_column_skip_witness:
  "isMazeFile_log (oneFile ''maze'' ''0 0 0 0 0 0\<newline>1 0 0 0 0 0\<newline>1 1 0 0 0 0\<newline>'') ''maze'' = (True, []) \<and>
   isMazeFile_log (oneFile ''maze'' ''0 0 0 0 0 0\<newline>2 0 0 0 0 0\<newline>'') ''maze''
     = (False, [UnexpectedXY ''maze'' 2 0 2])"
proof -
  have a: "getlines ''0 0 0 0 0 0\<newline>1 0 0 0 0 0\<newline>1 1 0 0 0 0\<newline>''
             = [''0 0 0 0 0 0'', ''1 0 0 0 0 0'', ''1 1 0 0 0 0'']"
    by (simp add: getlines_def newline_def)
  have b: "getlines ''0 0 0 0 0 0\<newline>2 0 0 0 0 0\<newline>'' = [''0 0 0 0 0 0'', ''2 0 0 0 0 0'']"
    by (simp add: getlines_def newline_def)
  have o1: "ifstream_open (oneFile ''maze'' ''0 0 0 0 0 0\<newline>1 0 0 0 0 0\<newline>1 1 0 0 0 0\<newline>'') ''maze''
      = Some ''0 0 0 0 0 0\<newline>1 0 0 0 0 0\<newline>1 1 0 0 0 0\<newline>''"
    by simp
  have o2: "ifstream_open (oneFile ''maze'' ''0 0 0 0 0 0\<newline>2 0 0 0 0 0\<newline>'') ''maze''
      = Some ''0 0 0 0 0 0\<newline>2 0 0 0 0 0\<newline>''"
    by simp
  from isMazeFile_column_skip [OF o1] isMazeFile_column_skip [OF o2] a b
  show ?thesis by simp
qed

text \<open>
  Claim C6. A file whose first line is \<open>1 0 0 0 0 0\<close> is rejected, with the warning
  for unexpected x and y values on line 1. A first line \<open>0 0 0 0 0 0\<close> passes every
  check of the loop body, and the validation goes on with the second line expecting
  \<open>(0,1)\<close>, so that the rest of the file alone decides the result.
\<close>

theorem isMazeFile_first_line:
  assumes "ifstream_open fs path = Some bytes"
  shows "(getlines bytes = ''1 0 0 0 0 0'' # rest \<longrightarrow>
            isMazeFile_log fs path = (False, [UnexpectedXY path 1 0 1])) \<and>
         (getlines bytes = ''0 0 0 0 0 0'' # rest \<longrightarrow>
            checkLine path (0, 0, 0) ''0 0 0 0 0 0'' = Inr (1, 0, 1) \<and>
            isMazeFile_log fs path =
              (case scanLines path (1, 0, 1) rest of
                 Inl w \<Rightarrow> (False, [w])
               | Inr st \<Rightarrow> (True, [])))"
proof (intro conjI impI)
  assume ls: "getlines bytes = ''1 0 0 0 0 0'' # rest"
  have "checkLine path (0, 0, 0) ''1 0 0 0 0 0'' = Inl (UnexpectedXY path 1 0 1)"
    by (simp add: checkLine_def tokenize_def isspace_def isInt_def isdigit_def strToInt_def digitsToInt_def)
  then show "isMazeFile_log fs path = (False, [UnexpectedXY path 1 0 1])"
    by (simp add: isMazeFile_log_lines [OF assms ls])
next
  show ok: "checkLine path (0, 0, 0) ''0 0 0 0 0 0'' = Inr (1, 0, 1)"
    by (simp add: checkLine_def tokenize_def isspace_def isInt_def isdigit_def strToInt_def digitsToInt_def)
  assume ls: "getlines bytes = ''0 0 0 0 0 0'' # rest"
  show "isMazeFile_log fs path =
      (case scanLines path (1, 0, 1) rest of Inl w \<Rightarrow> (False, [w]) | Inr st \<Rightarrow> (True, []))"
    by (simp add: isMazeFile_log_lines [OF assms ls] ok)
qed

theorem isMazeFile_first_line_witness:
  "isMazeFile_log (oneFile ''maze'' ''1 0 0 0 0 0\<newline>'') ''maze'' = (False, [UnexpectedXY ''maze'' 1 0 1]) \<and>
   isMazeFile_log (oneFile ''maze'' ''0 0 0 0 0 0\<newline>'') ''maze'' = (True, [])"
proof -
  have a: "getlines ''1 0 0 0 0 0\<newline>'' = ''1 0 0 0 0 0'' # []"
    by (simp add: getlines_def newline_def)
  have b: "getlines ''0 0 0 0 0 0\<newline>'' = ''0 0 0 0 0 0'' # []"
    by (simp add: getlines_def newline_def)
  have o1: "ifstream_open (oneFile ''maze'' ''1 0 0 0 0 0\<newline>'') ''maze'' = Some ''1 0 0 0 0 0\<newline>''"
    by simp
  have o2: "ifstream_open (oneFile ''maze'' ''0 0 0 0 0 0\<newline>'') ''maze'' = Some ''0 0 0 0 0 0\<newline>''"
    by simp
  from isMazeFile_first_line [OF o1, of "[]"] isMazeFile_first_line [OF o2, of "[]"] a b
  show ?thesis by simp
qed

text \<open>
  Claim C9. \<open>isMazeFile\<close> returns false when no file is at the path, when the file
  cannot be opened for reading, and when the file is empty. The warning for an empty
  file differs from the other two. The three results are fixed before the loop over the
  lines starts: they do not depend on a line of the file.
\<close>

theorem isMazeFile_missing_or_empty:
  "(files fs path = None \<longrightarrow> isMazeFile_log fs path = (False, [NotAFile path])) \<and>
   (files fs path = Some f \<and> \<not> readable f \<longrightarrow>
      isMazeFile_log fs path = (False, [CouldNotOpen path])) \<and>
   (files fs path = Some f \<and> readable f \<and> contents f = [] \<longrightarrow>
      isMazeFile_log fs path = (False, [EmptyFile path])) \<and>
   NotAFile path \<noteq> EmptyFile path \<and> CouldNotOpen path \<noteq> EmptyFile path"
  by (simp add: isMazeFile_log_def isFile_def ifstream_open_def)

theorem isMazeFile_missing_or_empty_witness:
  "isMazeFile_log (oneFile ''maze'' []) ''other'' = (False, [NotAFile ''other'']) \<and>
   isMazeFile_log (oneFile ''maze'' []) ''maze'' = (False, [EmptyFile ''maze''])"
  using isMazeFile_missing_or_empty [of "oneFile ''maze'' []" "''other''"]
    isMazeFile_missing_or_empty [of "oneFile ''maze'' []" "''maze''"
      "\<lparr>readable = True, writable = True, contents = []\<rparr>"]
  by (simp add: oneFile_def)

section \<open>Rejections and the single-row column\<close>

text \<open>
  Claim C2 says that a file whose first line carries \<open>(0,0)\<close> and whose second line
  carries \<open>(1,0)\<close> is rejected on its second line. The code accepts that line: after the
  first line \<open>expectedY\<close> is 1, so \<open>caseTwo\<close> holds. Claim C2 as amended: for such a
  file (the two lines having six integer tokens and wall values 0 or 1) the first two
  lines pass, the second one as the start of column 1, the loop goes on with line number
  2 and the expectation \<open>(1,1)\<close>, and the rest of the file alone decides the result.
\<close>

theorem isMazeFile_second_line_new_column:
  assumes "ifstream_open fs path = Some bytes"
    and "getlines bytes = first # second # rest"
    and "sixInts first" "wallsOk first" "lineXY first = (0, 0)"
    and "sixInts second" "wallsOk second" "lineXY second = (1, 0)"
  shows "scanLines path (0, 0, 0) [first, second] = Inr (2, 1, 1) \<and>
         isMazeFile_log fs path =
           (case scanLines path (2, 1, 1) rest of
              Inl w \<Rightarrow> (False, [w])
            | Inr st \<Rightarrow> (True, []))"
proof -
  have one: "checkLine path (0, 0, 0) first = Inr (1, 0, 1)"
    by (simp add: checkLine_accept [OF assms(3,4)] assms(5) acceptsXY_def nextXY_def)
  have two: "checkLine path (1, 0, 1) second = Inr (2, 1, 1)"
    by (simp add: checkLine_accept [OF assms(6,7)] assms(8) acceptsXY_def nextXY_def)
  show ?thesis
    by (simp add: isMazeFile_log_lines [OF assms(1,2)] one two)
qed

theorem isMazeFile_second_line_new_column_witness:
  "isMazeFile_log (oneFile ''maze'' ''0 0 1 0 0 1\<newline>1 0 0 1 1 0\<newline>'') ''maze'' = (True, [])"
proof -
  have o: "ifstream_open (oneFile ''maze'' ''0 0 1 0 0 1\<newline>1 0 0 1 1 0\<newline>'') ''maze''
      = Some ''0 0 1 0 0 1\<newline>1 0 0 1 1 0\<newline>''"
    by simp
  have ls: "getlines ''0 0 1 0 0 1\<newline>1 0 0 1 1 0\<newline>'' = ''0 0 1 0 0 1'' # ''1 0 0 1 1 0'' # []"
    by (simp add: getlines_def newline_def)
  have a: "sixInts ''0 0 1 0 0 1''" "wallsOk ''0 0 1 0 0 1''" "lineXY ''0 0 1 0 0 1'' = (0, 0)"
    by (simp_all add: sixInts_def wallsOk_def lineXY_def lineValues_def tokenize_def isspace_def
        isInt_def isdigit_def strToInt_def digitsToInt_def)
  have b: "sixInts ''1 0 0 1 1 0''" "wallsOk ''1 0 0 1 1 0''" "lineXY ''1 0 0 1 1 0'' = (1, 0)"
    by (simp_all add: sixInts_def wallsOk_def lineXY_def lineValues_def tokenize_def isspace_def
        isInt_def isdigit_def strToInt_def digitsToInt_def)
  from isMazeFile_second_line_new_column [OF o ls a b] show ?thesis by simp
qed

text \<open>The two-line file with the pairs \<open>(0,0)\<close> and \<open>(1,0)\<close> is accepted, without a warning.\<close>

theorem second_line_new_column_counterexample:
  "lineXY (getlines ''0 0 0 0 0 0\<newline>1 0 0 0 0 0\<newline>'' ! 0) = (0, 0) \<and>
   lineXY (getlines ''0 0 0 0 0 0\<newline>1 0 0 0 0 0\<newline>'' ! 1) = (1, 0) \<and>
   isMazeFile_log (oneFile ''maze'' ''0 0 0 0 0 0\<newline>1 0 0 0 0 0\<newline>'') ''maze'' = (True, [])"
  by (simp add: oneFile_def isMazeFile_log_def isFile_def ifstream_open_def getlines_def
      newline_def checkLine_def tokenize_def isspace_def isInt_def isdigit_def strToInt_def
      digitsToInt_def lineXY_def lineValues_def)

text \<open>
  Claim C7 says that a file with a line of other than six tokens is rejected with that
  line's token count in the warning. The file is rejected, but the loop stops at the
  first line that fails any check, so the warning is about an earlier line when one
  fails. Claim C7 as amended: a file that opens and has a line whose token count is not
  six is rejected; when every line before it passes all checks, the warning is the one
  for the entry count, with that line's number and its actual token count.
\<close>

theorem isMazeFile_token_count:
  assumes "ifstream_open fs path = Some bytes"
    and "getlines bytes = pre @ line # post"
    and "length (tokenize line) \<noteq> 6"
  shows "\<not> isMazeFile fs path \<and>
         (\<forall>st. scanLines path (0, 0, 0) pre = Inr st \<longrightarrow>
            isMazeFile_log fs path =
              (False, [WrongEntryCount path (int (length pre) + 1) (length (tokenize line))]))"
proof -
  have ne: "pre @ line # post \<noteq> []" by simp
  note log = isMazeFile_log_lines [OF assms(1,2) ne]
  show ?thesis
  proof (cases "scanLines path (0, 0, 0) pre")
    case (Inl w)
    then show ?thesis by (simp add: isMazeFile_def log scanLines_append)
  next
    case (Inr st)
    obtain n e where st: "st = (n, e)" by (cases st)
    have n: "n = int (length pre)"
      using scanLines_lineNum [of path 0 "(0, 0)" pre n e] Inr st by (cases e) simp
    have "scanLines path (0, 0, 0) (pre @ line # post)
        = Inl (WrongEntryCount path (int (length pre) + 1) (length (tokenize line)))"
      by (simp add: scanLines_append Inr st n checkLine_count [OF assms(3)])
    then show ?thesis by (simp add: isMazeFile_def log Inr)
  qed
qed

theorem isMazeFile_token_count_witness:
  "\<not> isMazeFile (oneFile ''maze'' ''0 0 0 0 0 0\<newline>0 1 0 0 0\<newline>0 2 0 0 0 0 0\<newline>'') ''maze'' \<and>
   isMazeFile_log (oneFile ''maze'' ''0 0 0 0 0 0\<newline>0 1 0 0 0\<newline>0 2 0 0 0 0 0\<newline>'') ''maze''
     = (False, [WrongEntryCount ''maze'' 2 5])"
proof -
  have o: "ifstream_open (oneFile ''maze'' ''0 0 0 0 0 0\<newline>0 1 0 0 0\<newline>0 2 0 0 0 0 0\<newline>'') ''maze''
      = Some ''0 0 0 0 0 0\<newline>0 1 0 0 0\<newline>0 2 0 0 0 0 0\<newline>''"
    by simp
  have ls: "getlines ''0 0 0 0 0 0\<newline>0 1 0 0 0\<newline>0 2 0 0 0 0 0\<newline>''
      = [''0 0 0 0 0 0''] @ ''0 1 0 0 0'' # [''0 2 0 0 0 0 0'']"
    by (simp add: getlines_def newline_def)
  have c: "length (tokenize ''0 1 0 0 0'') \<noteq> 6" "length (tokenize ''0 1 0 0 0'') = 5"
    by (simp_all add: tokenize_def isspace_def)
  have pre: "scanLines ''maze'' (0, 0, 0) [''0 0 0 0 0 0''] = Inr (1, 0, 1)"
    by (simp add: checkLine_def tokenize_def isspace_def isInt_def isdigit_def strToInt_def
        digitsToInt_def)
  from isMazeFile_token_count [OF o ls c(1)] pre c(2) show ?thesis by simp
qed

text \<open>
  The second line has three tokens, and the warning is about the coordinates of the
  first line.
\<close>

theorem token_count_diagnostic_counterexample:
  "length (tokenize (getlines ''1 0 0 0 0 0\<newline>0 0 0\<newline>'' ! 1)) = 3 \<and>
   isMazeFile_log (oneFile ''maze'' ''1 0 0 0 0 0\<newline>0 0 0\<newline>'') ''maze''
     = (False, [UnexpectedXY ''maze'' 1 0 1])"
  by (simp add: oneFile_def isMazeFile_log_def isFile_def ifstream_open_def getlines_def
      newline_def checkLine_def tokenize_def isspace_def isInt_def isdigit_def strToInt_def
      digitsToInt_def)

text \<open>What an accepted line, and an accepted list of lines, must have been.\<close>

lemma checkWalls_None:
  "checkWalls p n vs js = None \<Longrightarrow> \<forall>i \<in> set js. vs ! (2 + i) = 0 \<or> vs ! (2 + i) = 1"
  using checkWalls_bad [of js vs p n] by force

lemma checkLine_Inr:
  assumes "checkLine p (n, e) l = Inr st"
  shows "sixInts l \<and> wallsOk l \<and> acceptsXY e (lineXY l) \<and> st = (n + 1, nextXY e (lineXY l))"
proof -
  have len: "length (tokenize l) = 6"
    using assms checkLine_count [of l p n e] by auto
  have ints: "list_all isInt (tokenize l)"
  proof (rule ccontr)
    assume "\<not> list_all isInt (tokenize l)"
    from parseValues_bad [OF this, of path "n + 1" 0] show False
      using assms len parseValues_bad [OF \<open>\<not> list_all isInt (tokenize l)\<close>, of p "n + 1" 0]
      by (cases e) (auto simp: checkLine_def Let_def)
  qed
  have six: "sixInts l" using len ints by (simp add: sixInts_def)
  from assms have acc: "acceptsXY e (lineXY l)"
    and cw: "checkWalls p (n + 1) (lineValues l) [0, 1, 2, 3] = None"
    and st: "st = (n + 1, nextXY e (lineXY l))"
    by (auto simp: checkLine_sixInts [OF six] split: if_splits option.splits)
  from checkWalls_None [OF cw] have "wallsOk l"
    by (simp only: wallsOk_nth [OF len])
  with six acc st show ?thesis by simp
qed

lemma scanLines_Inr:
  "scanLines p (n, e) ls = Inr st \<Longrightarrow>
   (\<forall>l \<in> set ls. sixInts l \<and> wallsOk l) \<and> coordsOk e (map lineXY ls)"
proof (induction ls arbitrary: n e)
  case Nil
  then show ?case by simp
next
  case (Cons l ls)
  then obtain st1 where step: "checkLine p (n, e) l = Inr st1"
    and rest: "scanLines p st1 ls = Inr st"
    by (auto split: sum.splits)
  from checkLine_Inr [OF step] have l: "sixInts l" "wallsOk l" "acceptsXY e (lineXY l)"
    and st1: "st1 = (n + 1, nextXY e (lineXY l))" by simp_all
  from Cons.IH [OF rest [unfolded st1]] l show ?case by simp
qed




section \<open>The loader on conformant lines\<close>

lemma insertWalls_six:
  assumes "length (tokenize l) = 6"
  shows "insertWalls (tokenize l) \<lparr>walls = Map.empty\<rparr> DIRECTIONS = Inr (lineTile l)"
proof -
  have nth: "lineValues l ! i = strToInt (tokenize l ! i)" if "i < 6" for i
    using that assms by (simp add: lineValues_def)
  have "lineValues l ! 2 = strToInt (tokenize l ! 2)" "lineValues l ! 3 = strToInt (tokenize l ! 3)"
    "lineValues l ! 4 = strToInt (tokenize l ! 4)" "lineValues l ! 5 = strToInt (tokenize l ! 5)"
    by (simp_all add: nth)
  then show ?thesis
    by (simp add: DIRECTIONS_def assms lineTile_def)
qed

lemma loadLines_step:
  assumes "length (tokenize l) = 6"
  shows "loadLines maze column (l # rest) =
     (if int (length maze) < fst (lineXY l)
      then loadLines (maze @ [column]) [lineTile l] rest
      else loadLines maze (column @ [lineTile l]) rest)"
proof -
  have "lineValues l ! 0 = strToInt (tokenize l ! 0)"
    using assms by (simp add: lineValues_def)
  then show ?thesis
    by (simp add: insertWalls_six [OF assms] assms lineXY_def del: insertWalls.simps)
qed

lemma colLen_snoc_tile:
  "colLen (maze @ [column @ [t]]) i
     = colLen (maze @ [column]) i + (if int i = int (length maze) then 1 else 0)"
  by (simp add: colLen_def nth_append)

lemma colLen_snoc_column:
  "colLen (maze @ [column, [t]]) i
     = colLen (maze @ [column]) i + (if int i = int (length maze) + 1 then 1 else 0)"
proof -
  have "(int i = int (length maze) + 1) = (i = Suc (length maze))" by linarith
  then show ?thesis by (auto simp: colLen_def nth_append)
qed

lemma loadLines_conformant:
  assumes "\<forall>l \<in> set ls. length (tokenize l) = 6"
    and "coordsOk (ex, ey) (map lineXY ls)"
    and "int (length maze) = ex"
  shows "\<exists>g. loadLines maze column ls = Inr g \<and>
           int (length g) = (if ls = [] then ex else fst (lineXY (last ls))) + 1 \<and>
           (\<forall>i. colLen g i = colLen (maze @ [column]) i + length (linesOfColumn i ls))"
  using assms
proof (induction ls arbitrary: maze column ex ey)
  case Nil
  then show ?case by (simp add: linesOfColumn_def)
next
  case (Cons l ls)
  from Cons.prems have len: "length (tokenize l) = 6"
    and lens: "\<forall>l \<in> set ls. length (tokenize l) = 6"
    and acc: "acceptsXY (ex, ey) (lineXY l)"
    and rest: "coordsOk (nextXY (ex, ey) (lineXY l)) (map lineXY ls)"
    by simp_all
  obtain x y where xy: "lineXY l = (x, y)" by (cases "lineXY l")
  show ?case
  proof (cases "x = ex \<and> y = ey")
    case True
    then have next1: "nextXY (ex, ey) (lineXY l) = (ex, ey + 1)" by (simp add: xy nextXY_def)
    have step: "loadLines maze column (l # ls) = loadLines maze (column @ [lineTile l]) ls"
      using True Cons.prems(3) by (subst loadLines_step [OF len]) (simp add: xy)
    from Cons.IH [OF lens rest [unfolded next1] Cons.prems(3), of "column @ [lineTile l]"]
    obtain g where g: "loadLines maze (column @ [lineTile l]) ls = Inr g"
      and n: "int (length g) = (if ls = [] then ex else fst (lineXY (last ls))) + 1"
      and c: "\<forall>i. colLen g i = colLen (maze @ [column @ [lineTile l]]) i + length (linesOfColumn i ls)"
      by blast
    have n': "int (length g) = (if l # ls = [] then ex else fst (lineXY (last (l # ls)))) + 1"
      using n True by (simp add: xy)
    have c': "colLen g i = colLen (maze @ [column]) i + length (linesOfColumn i (l # ls))" for i
      using c [rule_format, of i] True Cons.prems(3)
      by (simp add: colLen_snoc_tile linesOfColumn_def xy eq_commute [of "int i"])
    from g n' c' step show ?thesis by simp
  next
    case False
    with acc have new: "x = ex + 1" "y = 0" by (auto simp: acceptsXY_def xy)
    from False have next2: "nextXY (ex, ey) (lineXY l) = (ex + 1, 1)" by (simp add: xy nextXY_def)
    have step: "loadLines maze column (l # ls) = loadLines (maze @ [column]) [lineTile l] ls"
      using new Cons.prems(3) by (subst loadLines_step [OF len]) (simp add: xy)
    have lm: "int (length (maze @ [column])) = ex + 1" using Cons.prems(3) by simp
    from Cons.IH [OF lens rest [unfolded next2] lm, of "[lineTile l]"]
    obtain g where g: "loadLines (maze @ [column]) [lineTile l] ls = Inr g"
      and n: "int (length g) = (if ls = [] then ex + 1 else fst (lineXY (last ls))) + 1"
      and c: "\<forall>i. colLen g i = colLen ((maze @ [column]) @ [[lineTile l]]) i + length (linesOfColumn i ls)"
      by blast
    have n': "int (length g) = (if l # ls = [] then ex else fst (lineXY (last (l # ls)))) + 1"
      using n new by (simp add: xy)
    have c': "colLen g i = colLen (maze @ [column]) i + length (linesOfColumn i (l # ls))" for i
      using c [rule_format, of i] new Cons.prems(3)
      by (simp add: colLen_snoc_column linesOfColumn_def xy eq_commute [of "int i"])
    from g n' c' step show ?thesis by simp
  qed
qed

section \<open>Decimal numbers\<close>

lemma digit_char:
  assumes "d < 10"
  shows "of_char (''0123456789'' ! d) = 48 + d"
proof -
  from assms have "d = 0 \<or> d = 1 \<or> d = 2 \<or> d = 3 \<or> d = 4 \<or> d = 5 \<or> d = 6 \<or> d = 7 \<or> d = 8 \<or> d = 9"
    by arith
  then show ?thesis by (elim disjE) simp_all
qed

lemma digit_char_int:
  assumes "d < 10"
  shows "(of_char (''0123456789'' ! d) :: int) = 48 + int d"
proof -
  have "(of_char (''0123456789'' ! d) :: int) = int (of_char (''0123456789'' ! d))"
    by (simp only: of_nat_of_char)
  then show ?thesis by (simp only: digit_char [OF assms] of_nat_add of_nat_numeral)
qed

lemma isdigit_digit_char: "d < 10 \<Longrightarrow> isdigit (''0123456789'' ! d)"
  by (simp only: isdigit_def digit_char) simp

lemma natToString_digits: "list_all isdigit (natToString n)"
proof (induction n rule: natToString.induct)
  case (1 n)
  show ?case
  proof (cases "n < 10")
    case True
    then show ?thesis by (subst natToString.simps) (simp add: isdigit_digit_char del: nth_Cons_numeral)
  next
    case False
    have "n mod 10 < 10" by simp
    with False 1 show ?thesis
      by (subst natToString.simps) (simp add: isdigit_digit_char del: nth_Cons_numeral)
  qed
qed

lemma natToString_not_Nil: "natToString n \<noteq> []"
  by (subst natToString.simps) simp

lemma digitsToInt_snoc: "digitsToInt (ds @ [c]) = 10 * digitsToInt ds + (of_char c - 48)"
  by (simp add: digitsToInt_def)

lemma digitsToInt_natToString: "digitsToInt (natToString n) = int n"
proof (induction n rule: natToString.induct)
  case (1 n)
  show ?case
  proof (cases "n < 10")
    case True
    have "digitsToInt [''0123456789'' ! n] = int n"
      using digit_char_int [OF True] by (simp add: digitsToInt_def del: nth_Cons_numeral)
    with True show ?thesis by (subst natToString.simps) simp
  next
    case False
    have m: "n mod 10 < 10" by simp
    have "digitsToInt (natToString (n div 10) @ [''0123456789'' ! (n mod 10)])
        = 10 * int (n div 10) + int (n mod 10)"
      using 1 [OF False] digit_char_int [OF m]
      by (simp add: digitsToInt_snoc del: nth_Cons_numeral)
    also have "\<dots> = int (10 * (n div 10) + n mod 10)"
      by (simp only: of_nat_add of_nat_mult of_nat_numeral)
    also have "\<dots> = int n" by simp
    finally show ?thesis using False by (subst natToString.simps) simp
  qed
qed

lemma isdigit_not_sign:
  assumes "isdigit c"
  shows "c \<noteq> CHR ''-'' \<and> c \<noteq> CHR ''+''"
proof -
  have "\<not> isdigit (CHR ''-'')" "\<not> isdigit (CHR ''+'')"
    by (simp_all add: isdigit_def)
  with assms show ?thesis by blast
qed

lemma isdigit_not_space:
  assumes "isdigit c"
  shows "\<not> isspace c \<and> c \<noteq> newline"
proof -
  have "\<not> isdigit (CHR '' '')" "\<not> isdigit (CHR 0x09)" "\<not> isdigit (CHR 0x0A)"
    "\<not> isdigit (CHR 0x0B)" "\<not> isdigit (CHR 0x0C)" "\<not> isdigit (CHR 0x0D)"
    by (simp_all add: isdigit_def)
  with assms show ?thesis unfolding isspace_def newline_def by blast
qed

lemma intToString_nonneg:
  assumes "0 \<le> i"
  shows "intToString i \<noteq> []" "list_all isdigit (intToString i)"
    "isInt (intToString i)" "strToInt (intToString i) = i"
proof -
  from assms have eq: "intToString i = natToString (nat i)" by (simp add: intToString_def)
  show ne: "intToString i \<noteq> []" by (simp add: eq natToString_not_Nil)
  show ds: "list_all isdigit (intToString i)" by (simp add: eq natToString_digits)
  from ne obtain c cs where cs: "intToString i = c # cs" by (cases "intToString i") auto
  with ds have c: "isdigit c" by simp
  from isdigit_not_sign [OF c] ds show "isInt (intToString i)"
    by (simp add: isInt_def cs)
  have "digitsToInt (intToString i) = i"
    using assms by (simp add: eq digitsToInt_natToString)
  with isdigit_not_sign [OF c] show "strToInt (intToString i) = i"
    by (simp add: strToInt_def cs)
qed

section \<open>The lines that \<open>saveMaze\<close> writes\<close>

lemma unlines_simps [simp]:
  "unlines [] = []" "unlines (l # ls) = l @ newline # unlines ls"
  "unlines (ks @ ls) = unlines ks @ unlines ls"
  by (simp_all add: unlines_def)

lemma hasAllWalls_Some: "hasAllWalls t \<Longrightarrow> \<exists>b. walls t d = Some b"
  by (cases d) (auto simp: hasAllWalls_def DIRECTIONS_def)

lemma wallsText_full:
  assumes "hasAllWalls t"
  shows "wallsText t DIRECTIONS =
     Inr [CHR '' '', wallChar t NORTH, CHR '' '', wallChar t EAST,
          CHR '' '', wallChar t SOUTH, CHR '' '', wallChar t WEST]"
proof -
  from hasAllWalls_Some [OF assms] obtain n e s w where
    "walls t NORTH = Some n" "walls t EAST = Some e" "walls t SOUTH = Some s" "walls t WEST = Some w"
    by metis
  then show ?thesis by (simp add: DIRECTIONS_def wallChar_def)
qed

lemma saveColumn_lines:
  "\<forall>t \<in> set ts. hasAllWalls t \<Longrightarrow> saveColumn x y ts = Inr (unlines (columnLines x y ts))"
proof (induction ts arbitrary: y)
  case Nil
  then show ?case by simp
next
  case (Cons t ts)
  then have t: "hasAllWalls t" and ts: "\<forall>t \<in> set ts. hasAllWalls t" by simp_all
  show ?case
    by (simp add: wallsText_full [OF t] Cons.IH [OF ts] cellLine_def)
qed

lemma saveColumns_lines:
  "\<forall>c \<in> set cs. \<forall>t \<in> set c. hasAllWalls t \<Longrightarrow>
   saveColumns x cs = Inr (unlines (mazeLines x cs))"
proof (induction cs arbitrary: x)
  case Nil
  then show ?case by simp
next
  case (Cons c cs)
  then have c: "\<forall>t \<in> set c. hasAllWalls t" and cs: "\<forall>c \<in> set cs. \<forall>t \<in> set c. hasAllWalls t"
    by simp_all
  show ?case by (simp add: saveColumn_lines [OF c] Cons.IH [OF cs])
qed

lemma getline_loop_line:
  "newline \<notin> set l \<Longrightarrow> getline_loop acc (l @ newline # rest) = (acc @ l) # getline_loop [] rest"
  by (induction l arbitrary: acc) auto

lemma getlines_unlines:
  "\<forall>l \<in> set ls. newline \<notin> set l \<Longrightarrow> getlines (unlines ls) = ls"
  unfolding getlines_def
  by (induction ls) (simp_all add: getline_loop_line)

lemma tokenize_loop_word:
  "\<forall>c \<in> set s. \<not> isspace c \<Longrightarrow> tokenize_loop w (s @ rest) = tokenize_loop (w @ s) rest"
  by (induction s arbitrary: w) simp_all

lemma tokenize_loop_token:
  assumes "\<forall>c \<in> set s. \<not> isspace c" and "s \<noteq> []"
  shows "tokenize_loop [] (s @ CHR '' '' # rest) = s # tokenize_loop [] rest"
  using assms by (simp add: tokenize_loop_word isspace_def)

lemma wallChar_cases: "wallChar t d = CHR ''1'' \<or> wallChar t d = CHR ''0''"
  by (simp add: wallChar_def)

lemma wallChar_not_space: "\<not> isspace (wallChar t d)" "wallChar t d \<noteq> newline"
  using wallChar_cases [of t d] by (auto simp: isspace_def newline_def)

lemma digits_no_space:
  assumes "list_all isdigit s"
  shows "\<forall>c \<in> set s. \<not> isspace c" "newline \<notin> set s"
  using assms isdigit_not_space by (auto simp: list_all_iff)

lemma tokenize_cellLine:
  assumes "0 \<le> x" "0 \<le> y"
  shows "tokenize (cellLine x y t) =
     [intToString x, intToString y, [wallChar t NORTH], [wallChar t EAST],
      [wallChar t SOUTH], [wallChar t WEST]]"
proof -
  note X = intToString_nonneg [OF assms(1)] and Y = intToString_nonneg [OF assms(2)]
  have tail: "tokenize_loop [] [wallChar t NORTH, CHR '' '', wallChar t EAST,
        CHR '' '', wallChar t SOUTH, CHR '' '', wallChar t WEST]
      = [[wallChar t NORTH], [wallChar t EAST], [wallChar t SOUTH], [wallChar t WEST]]"
    by (simp add: wallChar_not_space) (simp add: isspace_def)
  have "tokenize (cellLine x y t)
      = intToString x # tokenize_loop [] (intToString y @ CHR '' '' #
          [wallChar t NORTH, CHR '' '', wallChar t EAST,
           CHR '' '', wallChar t SOUTH, CHR '' '', wallChar t WEST])"
    unfolding tokenize_def cellLine_def
    by (rule tokenize_loop_token [OF digits_no_space(1) [OF X(2)] X(1)])
  also have "\<dots> = intToString x # intToString y # tokenize_loop []
          [wallChar t NORTH, CHR '' '', wallChar t EAST,
           CHR '' '', wallChar t SOUTH, CHR '' '', wallChar t WEST]"
    by (simp only: tokenize_loop_token [OF digits_no_space(1) [OF Y(2)] Y(1)])
  finally show ?thesis by (simp only: tail)
qed

lemma newline_cellLine:
  assumes "0 \<le> x" "0 \<le> y"
  shows "newline \<notin> set (cellLine x y t)"
proof -
  note X = intToString_nonneg [OF assms(1)] and Y = intToString_nonneg [OF assms(2)]
  have "newline \<noteq> CHR '' ''" by (simp add: newline_def)
  moreover have "newline \<noteq> wallChar t d" for d
    using wallChar_not_space(2) [of t d] by simp
  ultimately show ?thesis
    using digits_no_space(2) [OF X(2)] digits_no_space(2) [OF Y(2)]
    by (simp add: cellLine_def)
qed

lemma wallChar_token:
  "isInt [wallChar t d]"
  "strToInt [wallChar t d] = (if walls t d = Some True then 1 else 0)"
  by (simp_all add: wallChar_def isInt_def isdigit_def strToInt_def digitsToInt_def)

lemma lineValues_cellLine:
  assumes "0 \<le> x" "0 \<le> y"
  shows "lineValues (cellLine x y t) =
     [x, y, (if walls t NORTH = Some True then 1 else 0), (if walls t EAST = Some True then 1 else 0),
      (if walls t SOUTH = Some True then 1 else 0), (if walls t WEST = Some True then 1 else 0)]"
  unfolding lineValues_def tokenize_cellLine [OF assms]
  using intToString_nonneg(4) [OF assms(1)] intToString_nonneg(4) [OF assms(2)]
  by (simp add: wallChar_token(2))

lemma cellLine_wellformed:
  assumes "0 \<le> x" "0 \<le> y"
  shows "sixInts (cellLine x y t)" "wallsOk (cellLine x y t)" "lineXY (cellLine x y t) = (x, y)"
    "length (tokenize (cellLine x y t)) = 6"
proof -
  show "sixInts (cellLine x y t)"
    unfolding sixInts_def tokenize_cellLine [OF assms]
    using intToString_nonneg(3) [OF assms(1)] intToString_nonneg(3) [OF assms(2)]
    by (simp add: wallChar_token(1))
  show "wallsOk (cellLine x y t)"
    unfolding wallsOk_def lineValues_cellLine [OF assms] by simp
  show "lineXY (cellLine x y t) = (x, y)"
    unfolding lineXY_def lineValues_cellLine [OF assms] by simp
  show "length (tokenize (cellLine x y t)) = 6"
    unfolding tokenize_cellLine [OF assms] by simp
qed

lemma lineTile_cellLine:
  assumes "0 \<le> x" "0 \<le> y" "hasAllWalls t"
  shows "lineTile (cellLine x y t) = t"
proof -
  have "[NORTH \<mapsto> walls t NORTH = Some True, EAST \<mapsto> walls t EAST = Some True,
         SOUTH \<mapsto> walls t SOUTH = Some True, WEST \<mapsto> walls t WEST = Some True] = walls t"
  proof
    fix d
    from hasAllWalls_Some [OF assms(3), of d] obtain b where "walls t d = Some b" by blast
    then show "[NORTH \<mapsto> walls t NORTH = Some True, EAST \<mapsto> walls t EAST = Some True,
         SOUTH \<mapsto> walls t SOUTH = Some True, WEST \<mapsto> walls t WEST = Some True] d = walls t d"
      by (cases d) auto
  qed
  moreover have "(1 = (if P then 1 else (0::int))) = P" for P by simp
  ultimately show ?thesis
    unfolding lineTile_def lineValues_cellLine [OF assms(1,2)]
    by (simp split del: if_split)
qed

lemma columnLines_props:
  assumes "0 \<le> x" "0 \<le> y"
  shows "\<forall>l \<in> set (columnLines x y ts). sixInts l \<and> wallsOk l \<and> newline \<notin> set l"
    and "map lineXY (columnLines x y ts) = rowsFrom x y (length ts)"
  using assms(2)
proof (induction ts arbitrary: y)
  case Nil
  { case 1 show ?case by simp }
  { case 2 show ?case by simp }
next
  case (Cons t ts)
  { case 1
    then have "0 \<le> y + 1" by simp
    from Cons.IH(1) [OF this] cellLine_wellformed [OF assms(1) 1] newline_cellLine [OF assms(1) 1]
    show ?case by simp }
  { case 2
    then have "0 \<le> y + 1" by simp
    from Cons.IH(2) [OF this] cellLine_wellformed(3) [OF assms(1) 2]
    show ?case by (simp add: rowsFrom_Suc) }
qed

lemma mazeLines_props:
  assumes "0 \<le> x"
  shows "\<forall>l \<in> set (mazeLines x cs). sixInts l \<and> wallsOk l \<and> newline \<notin> set l"
    and "map lineXY (mazeLines x cs) = progressionFrom x (map length cs)"
  using assms
proof (induction cs arbitrary: x)
  case Nil
  { case 1 show ?case by simp }
  { case 2 show ?case by simp }
next
  case (Cons c cs)
  { case 1
    then have "0 \<le> x + 1" by simp
    from Cons.IH(1) [OF this] columnLines_props(1) [OF 1, of 0 c]
    show ?case by auto }
  { case 2
    then have "0 \<le> x + 1" by simp
    from Cons.IH(2) [OF this] columnLines_props(2) [OF 2, of 0 c]
    show ?case by (simp add: columnCoords_rowsFrom) }
qed

lemma mazeLines_not_Nil: "wellShaped g \<Longrightarrow> mazeLines x g \<noteq> []"
  by (cases g; cases "hd g") (auto simp: wellShaped_def)

lemma scanLines_mazeLines:
  assumes "wellShaped g"
  shows "\<exists>st. scanLines p (0, 0, 0) (mazeLines 0 g) = Inr st"
proof -
  have wf: "\<forall>l \<in> set (mazeLines 0 g). sixInts l \<and> wallsOk l"
    using mazeLines_props(1) [of 0 g] by simp
  have xy: "map lineXY (mazeLines 0 g) = progression (map length g)"
    using mazeLines_props(2) [of 0 g] by (simp add: progression_def)
  have ks: "map length g \<noteq> []" "\<forall>k \<in> set (map length g). 0 < k"
    using assms by (auto simp: wellShaped_def)
  have ne: "map lineXY (mazeLines 0 g) \<noteq> []"
    using mazeLines_not_Nil [OF assms] by simp
  have "coordsOk (0, 0) (map lineXY (mazeLines 0 g))"
    unfolding coordsOk_start [OF ne] using xy ks by blast
  then show ?thesis by (simp only: scanLines_coordsOk [OF wf])
qed

lemma loadLines_columnLines:
  assumes "int (length maze) = x" "0 \<le> y" "\<forall>t \<in> set ts. hasAllWalls t"
  shows "loadLines maze column (columnLines x y ts @ rest) = loadLines maze (column @ ts) rest"
  using assms(2,3)
proof (induction ts arbitrary: y column)
  case Nil
  then show ?case by simp
next
  case (Cons t ts)
  from assms(1) have x: "0 \<le> x" by auto
  note wf = cellLine_wellformed [OF x Cons.prems(1), of t]
  from Cons.prems have t: "hasAllWalls t" and ts: "\<forall>t \<in> set ts. hasAllWalls t" and y1: "0 \<le> y + 1"
    by simp_all
  have "loadLines maze column (columnLines x y (t # ts) @ rest)
      = loadLines maze column (cellLine x y t # (columnLines x (y + 1) ts @ rest))" by simp
  also have "\<dots> = loadLines maze (column @ [t]) (columnLines x (y + 1) ts @ rest)"
    using assms(1)
    by (subst loadLines_step [OF wf(4)])
      (simp add: wf(3) lineTile_cellLine [OF x Cons.prems(1) t])
  also have "\<dots> = loadLines maze ((column @ [t]) @ ts) rest"
    by (rule Cons.IH [OF y1 ts])
  finally show ?case by simp
qed

lemma loadLines_mazeLines:
  assumes "\<forall>c \<in> set cs. c \<noteq> [] \<and> (\<forall>t \<in> set c. hasAllWalls t)" "int (length maze) + 1 = x"
  shows "loadLines maze column (mazeLines x cs) = Inr (maze @ [column] @ cs)"
  using assms
proof (induction cs arbitrary: maze column x)
  case Nil
  then show ?case by simp
next
  case (Cons c cs)
  then obtain t ts where c: "c = t # ts" by (cases c) auto
  from Cons.prems have t: "hasAllWalls t" and ts: "\<forall>t \<in> set ts. hasAllWalls t"
    and cs: "\<forall>c \<in> set cs. c \<noteq> [] \<and> (\<forall>t \<in> set c. hasAllWalls t)"
    by (simp_all add: c)
  from Cons.prems(2) have x: "0 \<le> x" by auto
  note wf = cellLine_wellformed [OF x order_refl, of t]
  have lm: "int (length (maze @ [column])) = x" using Cons.prems(2) by simp
  have lm1: "int (length (maze @ [column])) + 1 = x + 1" using Cons.prems(2) by simp
  have "loadLines maze column (mazeLines x (c # cs))
      = loadLines maze column (cellLine x 0 t # (columnLines x (0 + 1) ts @ mazeLines (x + 1) cs))"
    by (simp add: c)
  also have "\<dots> = loadLines (maze @ [column]) [t] (columnLines x (0 + 1) ts @ mazeLines (x + 1) cs)"
    using Cons.prems(2)
    by (subst loadLines_step [OF wf(4)])
      (simp add: wf(3) lineTile_cellLine [OF x order_refl t])
  also have "\<dots> = loadLines (maze @ [column]) ([t] @ ts) (mazeLines (x + 1) cs)"
    by (rule loadLines_columnLines [OF lm _ ts]) simp
  also have "\<dots> = Inr ((maze @ [column]) @ [[t] @ ts] @ cs)"
    by (rule Cons.IH [OF cs lm1])
  finally show ?case by (simp add: c)
qed

lemma loadLines_mazeLines_start:
  assumes "wellShaped g"
  shows "loadLines [] [] (mazeLines 0 g) = Inr g"
proof -
  from assms obtain c cs where g: "g = c # cs" by (cases g) (auto simp: wellShaped_def)
  from assms have c: "\<forall>t \<in> set c. hasAllWalls t"
    and cs: "\<forall>c \<in> set cs. c \<noteq> [] \<and> (\<forall>t \<in> set c. hasAllWalls t)"
    by (auto simp: wellShaped_def g)
  have "loadLines [] [] (mazeLines 0 g) = loadLines [] [] (columnLines 0 0 c @ mazeLines (0 + 1) cs)"
    by (simp add: g)
  also have "\<dots> = loadLines [] ([] @ c) (mazeLines (0 + 1) cs)"
    by (rule loadLines_columnLines [OF _ _ c]) simp_all
  also have "\<dots> = Inr ([] @ [[] @ c] @ cs)"
    by (rule loadLines_mazeLines [OF cs]) simp
  finally show ?thesis by (simp add: g)
qed

section \<open>Loading and saving\<close>

lemma hasAllWalls_lineTile: "hasAllWalls (lineTile l)"
  by (simp add: hasAllWalls_def lineTile_def DIRECTIONS_def)

lemma loadLines_wellShaped:
  assumes "\<forall>l \<in> set ls. length (tokenize l) = 6"
    and "coordsOk (ex, ey) (map lineXY ls)"
    and "int (length maze) = ex" and "int (length column) = ey"
    and "\<forall>c \<in> set maze. c \<noteq> [] \<and> (\<forall>t \<in> set c. hasAllWalls t)"
    and "\<forall>t \<in> set column. hasAllWalls t"
    and "column \<noteq> [] \<or> ls \<noteq> []"
  shows "\<exists>g. loadLines maze column ls = Inr g \<and> wellShaped g"
  using assms
proof (induction ls arbitrary: maze column ex ey)
  case Nil
  then show ?case by (auto simp: wellShaped_def)
next
  case (Cons l ls)
  from Cons.prems have len: "length (tokenize l) = 6"
    and lens: "\<forall>l \<in> set ls. length (tokenize l) = 6"
    and acc: "acceptsXY (ex, ey) (lineXY l)"
    and rest: "coordsOk (nextXY (ex, ey) (lineXY l)) (map lineXY ls)"
    by simp_all
  obtain x y where xy: "lineXY l = (x, y)" by (cases "lineXY l")
  show ?case
  proof (cases "x = ex \<and> y = ey")
    case True
    then have next1: "nextXY (ex, ey) (lineXY l) = (ex, ey + 1)" by (simp add: xy nextXY_def)
    have step: "loadLines maze column (l # ls) = loadLines maze (column @ [lineTile l]) ls"
      using True Cons.prems(3) by (subst loadLines_step [OF len]) (simp add: xy)
    have "\<exists>g. loadLines maze (column @ [lineTile l]) ls = Inr g \<and> wellShaped g"
    proof (rule Cons.IH [OF lens rest [unfolded next1] Cons.prems(3) _ Cons.prems(5)])
      show "int (length (column @ [lineTile l])) = ey + 1" using Cons.prems(4) by simp
      show "\<forall>t \<in> set (column @ [lineTile l]). hasAllWalls t"
        using Cons.prems(6) hasAllWalls_lineTile by simp
      show "column @ [lineTile l] \<noteq> [] \<or> ls \<noteq> []" by simp
    qed
    with step show ?thesis by simp
  next
    case False
    with acc have new: "x = ex + 1" "y = 0" "ey \<noteq> 0" by (auto simp: acceptsXY_def xy)
    from False have next2: "nextXY (ex, ey) (lineXY l) = (ex + 1, 1)" by (simp add: xy nextXY_def)
    have step: "loadLines maze column (l # ls) = loadLines (maze @ [column]) [lineTile l] ls"
      using new Cons.prems(3) by (subst loadLines_step [OF len]) (simp add: xy)
    from new(3) Cons.prems(4) have col: "column \<noteq> []" by auto
    have "\<exists>g. loadLines (maze @ [column]) [lineTile l] ls = Inr g \<and> wellShaped g"
    proof (rule Cons.IH [OF lens rest [unfolded next2]])
      show "int (length (maze @ [column])) = ex + 1" using Cons.prems(3) by simp
      show "int (length [lineTile l]) = 1" by simp
      show "\<forall>c \<in> set (maze @ [column]). c \<noteq> [] \<and> (\<forall>t \<in> set c. hasAllWalls t)"
        using Cons.prems(5,6) col by simp
      show "\<forall>t \<in> set [lineTile l]. hasAllWalls t" by (simp add: hasAllWalls_lineTile)
      show "[lineTile l] \<noteq> [] \<or> ls \<noteq> []" by simp
    qed
    with step show ?thesis by simp
  qed
qed

lemma isMazeFile_scan:
  assumes "isMazeFile fs path"
  shows "\<exists>bytes st. ifstream_open fs path = Some bytes \<and> bytes \<noteq> [] \<and>
           scanLines path (0, 0, 0) (getlines bytes) = Inr st"
  using assms
  by (auto simp: isMazeFile_def isMazeFile_log_def split: if_splits option.splits sum.splits)

lemma loadMaze_lines:
  assumes "isMazeFile fs path" and "ifstream_open fs path = Some bytes"
  shows "loadMaze fs path = loadLines [] [] (getlines bytes)"
  using assms by (simp add: loadMaze_def)

lemma conformant_lines:
  assumes "isMazeFile fs path" and "ifstream_open fs path = Some bytes"
  shows "getlines bytes \<noteq> []" "\<forall>l \<in> set (getlines bytes). length (tokenize l) = 6"
    "coordsOk (0, 0) (map lineXY (getlines bytes))"
proof -
  from isMazeFile_scan [OF assms(1)] assms(2) obtain st where
    ne: "bytes \<noteq> []" and sc: "scanLines path (0, (0, 0)) (getlines bytes) = Inr st"
    by auto
  from ne show "getlines bytes \<noteq> []" by (simp add: getlines_Nil)
  from scanLines_Inr [OF sc] show "\<forall>l \<in> set (getlines bytes). length (tokenize l) = 6"
    "coordsOk (0, 0) (map lineXY (getlines bytes))"
    by (simp_all add: sixInts_def)
qed

lemma loadMaze_wellShaped:
  assumes "loadMaze fs path = Inr g"
  shows "wellShaped g"
proof -
  from assms have ok: "isMazeFile fs path" by (auto simp: loadMaze_def split: if_splits)
  from isMazeFile_scan [OF ok] obtain bytes where o: "ifstream_open fs path = Some bytes" by blast
  note c = conformant_lines [OF ok o]
  have "\<exists>g. loadLines [] [] (getlines bytes) = Inr g \<and> wellShaped g"
    by (rule loadLines_wellShaped [OF c(2,3)]) (simp_all add: c(1))
  with assms show ?thesis by (simp add: loadMaze_lines [OF ok o])
qed

lemma saveMaze_wellShaped:
  assumes "wellShaped g" and "ofstream_open fs path = Some f" and "readable f"
  shows "\<exists>fs'. saveMaze g path fs = Inr (fs', []) \<and> isMazeFile fs' path \<and> loadMaze fs' path = Inr g"
proof -
  define fs' where "fs' = fs\<lparr>files := (files fs)(path \<mapsto> f\<lparr>contents := unlines (mazeLines 0 g)\<rparr>)\<rparr>"
  from assms(1) have full: "\<forall>c \<in> set g. \<forall>t \<in> set c. hasAllWalls t" by (simp add: wellShaped_def)
  have sv: "saveMaze g path fs = Inr (fs', [])"
    by (simp add: saveMaze_def assms(2) saveColumns_lines [OF full] fs'_def)
  have o: "ifstream_open fs' path = Some (unlines (mazeLines 0 g))"
    using assms(3) by (simp add: ifstream_open_def fs'_def)
  have ls: "getlines (unlines (mazeLines 0 g)) = mazeLines 0 g"
    by (rule getlines_unlines) (use mazeLines_props(1) [of 0 g] in simp)
  from scanLines_mazeLines [OF assms(1), of path] obtain st where
    "scanLines path (0, 0, 0) (mazeLines 0 g) = Inr st" by blast
  then have "isMazeFile_log fs' path = (True, [])"
    by (simp add: isMazeFile_log_lines [OF o ls mazeLines_not_Nil [OF assms(1)]])
  then have ok: "isMazeFile fs' path" by (simp add: isMazeFile_def)
  have "loadMaze fs' path = Inr g"
    by (simp add: loadMaze_lines [OF ok o] ls loadLines_mazeLines_start [OF assms(1)])
  with sv ok show ?thesis by blast
qed

lemma example_lines:
  "getlines ''0 0 1 1 0 0\<newline>0 1 0 1 1 0\<newline>1 0 1 0 0 1\<newline>''
     = [''0 0 1 1 0 0'', ''0 1 0 1 1 0'', ''1 0 1 0 0 1'']"
  by (simp add: getlines_def newline_def)

lemma example_accepted:
  "isMazeFile (oneFile ''maze'' ''0 0 1 1 0 0\<newline>0 1 0 1 1 0\<newline>1 0 1 0 0 1\<newline>'') ''maze''"
  by (simp add: isMazeFile_def isMazeFile_log_def isFile_def oneFile_def ifstream_open_def
      example_lines checkLine_def tokenize_def isspace_def isInt_def isdigit_def strToInt_def
      digitsToInt_def)

lemma example_loaded:
  "loadMaze (oneFile ''maze'' ''0 0 1 1 0 0\<newline>0 1 0 1 1 0\<newline>1 0 1 0 0 1\<newline>'') ''maze''
     = Inr [[\<lparr>walls = [NORTH \<mapsto> True, EAST \<mapsto> True, SOUTH \<mapsto> False, WEST \<mapsto> False]\<rparr>,
             \<lparr>walls = [NORTH \<mapsto> False, EAST \<mapsto> True, SOUTH \<mapsto> True, WEST \<mapsto> False]\<rparr>],
            [\<lparr>walls = [NORTH \<mapsto> True, EAST \<mapsto> False, SOUTH \<mapsto> False, WEST \<mapsto> True]\<rparr>]]"
  using example_accepted
  by (simp add: loadMaze_def example_lines DIRECTIONS_def tokenize_def isspace_def strToInt_def
      digitsToInt_def)

text \<open>
  Claim C10. For a file that \<open>isMazeFile\<close> accepts, \<open>loadMaze\<close> returns a maze, and the
  maze is not empty: the column in progress is appended after the loop. The number of
  its columns is the x-value of the last line of the file plus 1, and the length of
  column \<open>i\<close> is the number of lines of the file that carry the x-value \<open>i\<close>.
\<close>

theorem loadMaze_shape:
  assumes "isMazeFile fs path" and "ifstream_open fs path = Some bytes"
  shows "\<exists>maze. loadMaze fs path = Inr maze \<and> maze \<noteq> [] \<and>
           int (length maze) = fst (lineXY (last (getlines bytes))) + 1 \<and>
           (\<forall>i < length maze. length (maze ! i) = length (linesOfColumn i (getlines bytes)))"
proof -
  note c = conformant_lines [OF assms]
  from loadLines_conformant [OF c(2,3), of "[]" "[]"] obtain g where
    g: "loadLines [] [] (getlines bytes) = Inr g"
    and n: "int (length g) = fst (lineXY (last (getlines bytes))) + 1"
    and cl: "\<forall>i. colLen g i = colLen ([] @ [[]]) i + length (linesOfColumn i (getlines bytes))"
    using c(1) by auto
  have z: "colLen ([] @ [[]]) i = 0" for i by (simp add: colLen_def)
  have "length (g ! i) = length (linesOfColumn i (getlines bytes))" if "i < length g" for i
  proof -
    from cl have "colLen g i = length (linesOfColumn i (getlines bytes))" by (simp only: z add_0)
    with that show ?thesis by (simp add: colLen_def)
  qed
  moreover from g have "g \<noteq> []"
    using loadLines_wellShaped [OF c(2,3), of "[]" "[]"] c(1) by (auto simp: wellShaped_def)
  ultimately show ?thesis using g n by (simp add: loadMaze_lines [OF assms])
qed

theorem loadMaze_shape_witness:
  "\<exists>maze. loadMaze (oneFile ''maze'' ''0 0 1 1 0 0\<newline>0 1 0 1 1 0\<newline>1 0 1 0 0 1\<newline>'') ''maze'' = Inr maze \<and>
      length maze = 2 \<and> length (maze ! 0) = 2 \<and> length (maze ! 1) = 1"
proof -
  have xs: "map (\<lambda>l. fst (lineXY l)) [''0 0 1 1 0 0'', ''0 1 0 1 1 0'', ''1 0 1 0 0 1''] = [0, 0, 1]"
    by (simp add: lineXY_def lineValues_def tokenize_def isspace_def strToInt_def digitsToInt_def)
  from loadMaze_shape [OF example_accepted ifstream_open_oneFile]
  obtain maze where m: "loadMaze (oneFile ''maze'' ''0 0 1 1 0 0\<newline>0 1 0 1 1 0\<newline>1 0 1 0 0 1\<newline>'') ''maze'' = Inr maze"
    and n: "int (length maze) = fst (lineXY (last (getlines ''0 0 1 1 0 0\<newline>0 1 0 1 1 0\<newline>1 0 1 0 0 1\<newline>''))) + 1"
    and c: "\<forall>i < length maze. length (maze ! i)
        = length (linesOfColumn i (getlines ''0 0 1 1 0 0\<newline>0 1 0 1 1 0\<newline>1 0 1 0 0 1\<newline>''))"
    by blast
  from n xs have len: "length maze = 2" by (simp add: example_lines)
  from c len have "length (maze ! 0) = length (linesOfColumn 0 [''0 0 1 1 0 0'', ''0 1 0 1 1 0'', ''1 0 1 0 0 1''])"
    "length (maze ! 1) = length (linesOfColumn 1 [''0 0 1 1 0 0'', ''0 1 0 1 1 0'', ''1 0 1 0 0 1''])"
    by (simp_all add: example_lines)
  with xs have "length (maze ! 0) = 2" "length (maze ! 1) = 1"
    by (simp_all add: linesOfColumn_def)
  with m len show ?thesis by blast
qed

text \<open>
  Claim C3. For a maze \<open>g\<close> that \<open>loadMaze\<close> returns, and a path at which a file can be
  opened for writing and read afterwards, \<open>saveMaze\<close> writes the file without a warning
  or an exception, and \<open>loadMaze\<close> on the written file (which validates it again)
  returns \<open>g\<close>: the same columns, of the same lengths, with the same wall flags.
\<close>

theorem save_load_roundtrip:
  assumes "loadMaze fs path = Inr g"
    and "ofstream_open fs' path' = Some f" and "readable f"
  shows "\<exists>fs''. saveMaze g path' fs' = Inr (fs'', []) \<and> loadMaze fs'' path' = Inr g"
  using saveMaze_wellShaped [OF loadMaze_wellShaped [OF assms(1)] assms(2,3)] by blast

theorem save_load_roundtrip_witness:
  "\<exists>fs''. saveMaze [[\<lparr>walls = [NORTH \<mapsto> True, EAST \<mapsto> True, SOUTH \<mapsto> False, WEST \<mapsto> False]\<rparr>,
             \<lparr>walls = [NORTH \<mapsto> False, EAST \<mapsto> True, SOUTH \<mapsto> True, WEST \<mapsto> False]\<rparr>],
            [\<lparr>walls = [NORTH \<mapsto> True, EAST \<mapsto> False, SOUTH \<mapsto> False, WEST \<mapsto> True]\<rparr>]]
          ''maze'' (oneFile ''maze'' ''0 0 1 1 0 0\<newline>0 1 0 1 1 0\<newline>1 0 1 0 0 1\<newline>'') = Inr (fs'', []) \<and>
      loadMaze fs'' ''maze''
        = Inr [[\<lparr>walls = [NORTH \<mapsto> True, EAST \<mapsto> True, SOUTH \<mapsto> False, WEST \<mapsto> False]\<rparr>,
             \<lparr>walls = [NORTH \<mapsto> False, EAST \<mapsto> True, SOUTH \<mapsto> True, WEST \<mapsto> False]\<rparr>],
            [\<lparr>walls = [NORTH \<mapsto> True, EAST \<mapsto> False, SOUTH \<mapsto> False, WEST \<mapsto> True]\<rparr>]]"
proof -
  have o: "ofstream_open (oneFile ''maze'' ''0 0 1 1 0 0\<newline>0 1 0 1 1 0\<newline>1 0 1 0 0 1\<newline>'') ''maze''
      = Some \<lparr>readable = True, writable = True, contents = []\<rparr>"
    by (simp add: ofstream_open_def oneFile_def)
  have r: "readable \<lparr>readable = True, writable = True, contents = []\<rparr>" by simp
  from save_load_roundtrip [OF example_loaded o r] show ?thesis .
qed

section \<open>Which mazes save to an accepted file\<close>

lemma takeWhile_cells: "\<forall>c \<in> set (takeWhile (\<lambda>column. column \<noteq> []) (maze::maze)). c \<noteq> []"
  using set_takeWhileD by fastforce

lemma takeWhile_no_cells: "\<forall>c \<in> set (es::maze). c = [] \<Longrightarrow> takeWhile (\<lambda>column. column \<noteq> []) es = []"
  by (cases es) simp_all

lemma dropWhile_no_cells: "\<forall>c \<in> set (es::maze). c = [] \<Longrightarrow> dropWhile (\<lambda>column. column \<noteq> []) es = es"
  by (cases es) simp_all

lemma cellsFirst_split:
  "cellsFirst maze \<longleftrightarrow>
   (\<exists>cols es. maze = cols @ es \<and> cols \<noteq> [] \<and> (\<forall>c \<in> set cols. c \<noteq> []) \<and> (\<forall>c \<in> set es. c = []))"
proof
  assume c: "cellsFirst maze"
  show "\<exists>cols es. maze = cols @ es \<and> cols \<noteq> [] \<and> (\<forall>c \<in> set cols. c \<noteq> []) \<and>
      (\<forall>c \<in> set es. c = [])"
  proof (intro exI conjI)
    show "maze = takeWhile (\<lambda>column. column \<noteq> []) maze @ dropWhile (\<lambda>column. column \<noteq> []) maze"
      by simp
    show "takeWhile (\<lambda>column. column \<noteq> []) maze \<noteq> []"
      using c unfolding cellsFirst_def by (rule conjunct1)
    show "\<forall>c \<in> set (takeWhile (\<lambda>column. column \<noteq> []) maze). c \<noteq> []"
      by (rule takeWhile_cells)
    show "\<forall>c \<in> set (dropWhile (\<lambda>column. column \<noteq> []) maze). c = []"
      using c unfolding cellsFirst_def list_all_iff by (rule conjunct2)
  qed
next
  assume "\<exists>cols es. maze = cols @ es \<and> cols \<noteq> [] \<and> (\<forall>c \<in> set cols. c \<noteq> []) \<and>
      (\<forall>c \<in> set es. c = [])"
  then obtain cols es where m: "maze = cols @ es" and ne: "cols \<noteq> []"
    and cols: "\<forall>c \<in> set cols. c \<noteq> []" and es: "\<forall>c \<in> set es. c = []"
    by blast
  have t: "takeWhile (\<lambda>column. column \<noteq> []) (cols @ es) = cols"
    using cols by (simp add: takeWhile_append2 takeWhile_no_cells [OF es])
  have d: "dropWhile (\<lambda>column. column \<noteq> []) (cols @ es) = es"
    using cols by (simp add: dropWhile_append2 dropWhile_no_cells [OF es])
  show "cellsFirst maze"
    unfolding cellsFirst_def m t d list_all_iff using ne es by (rule conjI)
qed

lemma columnCoords_Nil: "columnCoords x k = [] \<longleftrightarrow> k = 0"
  by (simp add: columnCoords_def)

lemma progressionFrom_Nil_iff: "progressionFrom x ks = [] \<longleftrightarrow> (\<forall>k \<in> set ks. k = 0)"
  by (induction ks arbitrary: x) (auto simp: columnCoords_Nil)

lemma progressionFrom_append:
  "progressionFrom x (ks @ ls) = progressionFrom x ks @ progressionFrom (x + int (length ks)) ls"
  by (induction ks arbitrary: x) (simp_all add: add.assoc)

lemma fst_progressionFrom: "p \<in> set (progressionFrom y ks) \<Longrightarrow> y \<le> fst p"
proof (induction ks arbitrary: y)
  case Nil
  then show ?case by simp
next
  case (Cons k ks)
  from Cons.prems have "p \<in> set (columnCoords y k) \<or> p \<in> set (progressionFrom (y + 1) ks)"
    by simp
  then show ?case
  proof
    assume "p \<in> set (columnCoords y k)"
    then show ?thesis by (auto simp: columnCoords_def)
  next
    assume "p \<in> set (progressionFrom (y + 1) ks)"
    from Cons.IH [OF this] show ?thesis by simp
  qed
qed

lemma filter_column:
  "filter (\<lambda>p. fst p = x) (columnCoords x k @ progressionFrom (x + 1) ks) = columnCoords x k"
proof -
  have "filter (\<lambda>p. fst p = x) (columnCoords x k) = columnCoords x k"
    by (simp add: columnCoords_def filter_map comp_def)
  moreover have "filter (\<lambda>p. fst p = x) (progressionFrom (x + 1) ks) = []"
    using fst_progressionFrom [of _ "x + 1" ks] by (fastforce simp: filter_empty_conv)
  ultimately show ?thesis by simp
qed

lemma progressionFrom_inj:
  "\<forall>k \<in> set ks'. 0 < k \<Longrightarrow> progressionFrom x ks = progressionFrom x ks' \<Longrightarrow>
   \<exists>zs. ks = ks' @ zs \<and> (\<forall>z \<in> set zs. z = 0)"
proof (induction ks' arbitrary: ks x)
  case Nil
  then show ?case by (simp add: progressionFrom_Nil_iff)
next
  case (Cons k' r')
  from Cons.prems(1) have k': "0 < k'" and r': "\<forall>k \<in> set r'. 0 < k" by simp_all
  from k' have rhs: "progressionFrom x (k' # r') \<noteq> []" by (simp add: columnCoords_Nil)
  with Cons.prems(2) obtain k r where ks: "ks = k # r" by (cases ks) auto
  from Cons.prems(2) have eq: "columnCoords x k @ progressionFrom (x + 1) r
      = columnCoords x k' @ progressionFrom (x + 1) r'"
    by (simp add: ks)
  then have "filter (\<lambda>p. fst p = x) (columnCoords x k @ progressionFrom (x + 1) r)
      = filter (\<lambda>p. fst p = x) (columnCoords x k' @ progressionFrom (x + 1) r')"
    by (rule arg_cong)
  then have cc: "columnCoords x k = columnCoords x k'" by (simp only: filter_column)
  then have "length (columnCoords x k) = length (columnCoords x k')" by (rule arg_cong)
  then have k: "k = k'" by (simp add: columnCoords_def)
  from eq cc have "progressionFrom (x + 1) r = progressionFrom (x + 1) r'" by simp
  from Cons.IH [OF r' this] obtain zs where "r = r' @ zs" "\<forall>z \<in> set zs. z = 0" by blast
  with k ks show ?case by simp
qed

lemma progression_cellsFirst:
  "(\<exists>ks. ks \<noteq> [] \<and> (\<forall>k \<in> set ks. 0 < k) \<and> progressionFrom 0 (map length maze) = progression ks)
   \<longleftrightarrow> cellsFirst maze"
proof
  assume "\<exists>ks. ks \<noteq> [] \<and> (\<forall>k \<in> set ks. 0 < k) \<and>
      progressionFrom 0 (map length maze) = progression ks"
  then obtain ks where ne: "ks \<noteq> []" and pos: "\<forall>k \<in> set ks. 0 < k"
    and eq: "progressionFrom 0 (map length maze) = progressionFrom 0 ks"
    by (auto simp: progression_def)
  from progressionFrom_inj [OF pos eq] obtain zs where
    ml: "map length maze = ks @ zs" and zs: "\<forall>z \<in> set zs. z = 0" by blast
  let ?n = "length ks"
  have m: "maze = take ?n maze @ drop ?n maze" by simp
  have t: "map length (take ?n maze) = ks" using ml by (simp add: take_map [symmetric])
  have d: "map length (drop ?n maze) = zs" using ml by (simp add: drop_map [symmetric])
  have "take ?n maze \<noteq> []" using t ne by auto
  moreover have "\<forall>c \<in> set (take ?n maze). c \<noteq> []"
  proof
    fix c assume "c \<in> set (take ?n maze)"
    then have "length c \<in> set ks" using t by (metis image_eqI list.set_map)
    with pos show "c \<noteq> []" by auto
  qed
  moreover have "\<forall>c \<in> set (drop ?n maze). c = []"
  proof
    fix c assume "c \<in> set (drop ?n maze)"
    then have "length c \<in> set zs" using d by (metis image_eqI list.set_map)
    with zs show "c = []" by auto
  qed
  ultimately show "cellsFirst maze" unfolding cellsFirst_split using m by blast
next
  assume "cellsFirst maze"
  then obtain cols es where m: "maze = cols @ es" and ne: "cols \<noteq> []"
    and cols: "\<forall>c \<in> set cols. c \<noteq> []" and es: "\<forall>c \<in> set es. c = []"
    unfolding cellsFirst_split by blast
  have "progressionFrom (0 + int (length (map length cols))) (map length es) = []"
    unfolding progressionFrom_Nil_iff using es by simp
  then have "progressionFrom 0 (map length maze) = progression (map length cols)"
    by (simp add: m progressionFrom_append progression_def del: length_map)
  moreover have "map length cols \<noteq> []" "\<forall>k \<in> set (map length cols). 0 < k"
    using ne cols by auto
  ultimately show "\<exists>ks. ks \<noteq> [] \<and> (\<forall>k \<in> set ks. 0 < k) \<and>
      progressionFrom 0 (map length maze) = progression ks"
    by blast
qed

lemma unlines_Nil: "unlines ls = [] \<longleftrightarrow> ls = []"
  by (cases ls) simp_all

text \<open>
  Claim C4 says that the file written by \<open>saveMaze\<close> is accepted for every maze. A maze
  without a cell gives an empty file, which \<open>isMazeFile\<close> rejects, and a column without
  a cell before a column with cells breaks the progression of the x-values. Claim C4 as
  amended: for every maze whose cells all carry the four wall flags, and a path at which
  a file can be opened for writing and read afterwards, \<open>saveMaze\<close> writes the file
  without a warning or an exception, and \<open>isMazeFile\<close> accepts it exactly when column 0
  has a cell and no column with cells comes after a column without cells.
\<close>

theorem saveMaze_accepted:
  assumes "\<forall>column \<in> set maze. \<forall>tile \<in> set column. hasAllWalls tile"
    and "ofstream_open fs path = Some f" and "readable f"
  shows "\<exists>fs'. saveMaze maze path fs = Inr (fs', []) \<and> (isMazeFile fs' path \<longleftrightarrow> cellsFirst maze)"
proof -
  define fs' where "fs' = fs\<lparr>files := (files fs)(path \<mapsto> f\<lparr>contents := unlines (mazeLines 0 maze)\<rparr>)\<rparr>"
  have sv: "saveMaze maze path fs = Inr (fs', [])"
    by (simp add: saveMaze_def assms(2) saveColumns_lines [OF assms(1)] fs'_def)
  have o: "ifstream_open fs' path = Some (unlines (mazeLines 0 maze))"
    using assms(3) by (simp add: ifstream_open_def fs'_def)
  have wf: "\<forall>l \<in> set (mazeLines 0 maze). sixInts l \<and> wallsOk l"
    using mazeLines_props(1) [of 0 maze] by simp
  have ls: "getlines (unlines (mazeLines 0 maze)) = mazeLines 0 maze"
    by (rule getlines_unlines) (use mazeLines_props(1) [of 0 maze] in simp)
  have xy: "map lineXY (mazeLines 0 maze) = progressionFrom 0 (map length maze)"
    using mazeLines_props(2) [of 0 maze] by simp
  have "isMazeFile fs' path \<longleftrightarrow> cellsFirst maze"
  proof (cases "mazeLines 0 maze = []")
    case True
    then have "\<not> isMazeFile fs' path"
      by (simp add: isMazeFile_def isMazeFile_log_open [OF o])
    moreover have "\<not> cellsFirst maze"
    proof
      assume "cellsFirst maze"
      then obtain ks where "ks \<noteq> []" "\<forall>k \<in> set ks. 0 < k"
        "progressionFrom 0 (map length maze) = progression ks"
        unfolding progression_cellsFirst [symmetric] by blast
      with progression_Nil [of ks] xy True show False by simp
    qed
    ultimately show ?thesis by simp
  next
    case False
    then have ne: "map lineXY (mazeLines 0 maze) \<noteq> []" by simp
    have "isMazeFile fs' path \<longleftrightarrow> (\<exists>st. scanLines path (0, 0, 0) (mazeLines 0 maze) = Inr st)"
      using False
      by (auto simp: isMazeFile_def isMazeFile_log_open [OF o] ls unlines_Nil split: sum.splits)
    also have "\<dots> \<longleftrightarrow> coordsOk (0, 0) (map lineXY (mazeLines 0 maze))"
      by (rule scanLines_coordsOk [OF wf])
    also have "\<dots> \<longleftrightarrow> (\<exists>ks. ks \<noteq> [] \<and> (\<forall>k \<in> set ks. 0 < k) \<and>
        map lineXY (mazeLines 0 maze) = progression ks)"
      by (rule coordsOk_start [OF ne])
    also have "\<dots> \<longleftrightarrow> cellsFirst maze"
      by (simp only: xy progression_cellsFirst)
    finally show ?thesis .
  qed
  with sv show ?thesis by blast
qed

theorem saveMaze_accepted_witness:
  "\<exists>fs'. saveMaze [[\<lparr>walls = [NORTH \<mapsto> True, EAST \<mapsto> False, SOUTH \<mapsto> True, WEST \<mapsto> False]\<rparr>], []]
          ''maze'' (oneFile ''maze'' ''old'') = Inr (fs', []) \<and> isMazeFile fs' ''maze''"
proof -
  have w: "\<forall>column \<in> set [[\<lparr>walls = [NORTH \<mapsto> True, EAST \<mapsto> False, SOUTH \<mapsto> True, WEST \<mapsto> False]\<rparr>], []].
      \<forall>tile \<in> set column. hasAllWalls tile"
    by (auto simp: hasAllWalls_def DIRECTIONS_def)
  have c: "cellsFirst [[\<lparr>walls = [NORTH \<mapsto> True, EAST \<mapsto> False, SOUTH \<mapsto> True, WEST \<mapsto> False]\<rparr>], []]"
    by (simp add: cellsFirst_def)
  have o: "ofstream_open (oneFile ''maze'' ''old'') ''maze''
      = Some \<lparr>readable = True, writable = True, contents = []\<rparr>"
    by (simp add: ofstream_open_def oneFile_def)
  have r: "readable \<lparr>readable = True, writable = True, contents = []\<rparr>" by simp
  from saveMaze_accepted [OF w o r] c show ?thesis by blast
qed

text \<open>
  The maze without columns: \<open>saveMaze\<close> leaves an empty file, and \<open>isMazeFile\<close> rejects
  it with the warning for an empty file.
\<close>

theorem saveMaze_empty_grid_counterexample:
  "saveMaze [] ''maze'' (oneFile ''maze'' ''old'') = Inr (oneFile ''maze'' [], []) \<and>
   isMazeFile_log (oneFile ''maze'' []) ''maze'' = (False, [EmptyFile ''maze''])"
  by (simp add: saveMaze_def ofstream_open_def oneFile_def isMazeFile_log_def isFile_def
      ifstream_open_def)

end
